theory Spec2Isabelle
  imports Complex_Main "HOL-Library.Word"
begin

unbundle bit_operations_syntax

section \<open>Go values\<close>

text \<open>
  Machine integers of the Go source on a 64-bit platform: \<open>byte\<close> is \<open>uint8\<close>,
  \<open>uint\<close> and \<open>int\<close> are 64 bits wide. An \<open>int\<close> is a 64-bit word read with
  \<open>sint\<close>; the conversion \<open>uint(x)\<close> of an \<open>int\<close> keeps the bits.
\<close>

type_synonym byte = "8 word"
type_synonym uint16 = "16 word"
type_synonym uint = "64 word"
type_synonym goint = "64 word"

text \<open>
  A Go call either returns a value or panics with a message. Errors returned as
  values (the second component of \<open>(Message, error)\<close>) are the left summand of the
  returned value.
\<close>

datatype 'a go = Return 'a | Panic string

fun bind_go :: "'a go \<Rightarrow> ('a \<Rightarrow> 'b go) \<Rightarrow> 'b go" where
  "bind_go (Return x) f = f x"
| "bind_go (Panic s) f = Panic s"

text \<open>\<open>xs[i]\<close>: the index is a Go \<open>int\<close>; out of range is a run-time panic.\<close>

definition index :: "'a list \<Rightarrow> int \<Rightarrow> 'a go" where
  "index xs i = (if 0 \<le> i \<and> i < int (length xs) then Return (xs ! nat i)
              else Panic ''index out of range'')"

text \<open>\<open>xs[lo:hi]\<close> for constant bounds within the length of the slice.\<close>

definition subslice :: "'a list \<Rightarrow> nat \<Rightarrow> nat \<Rightarrow> 'a list go" where
  "subslice xs lo hi = (if lo \<le> hi \<and> hi \<le> length xs then Return (take (hi - lo) (drop lo xs))
                     else Panic ''slice bounds out of range'')"

section \<open>Messages\<close>

record DumpHeader =
  hChannel :: byte
  hNumber :: uint16
  hBitDepth :: byte
  hPeriod :: uint
  hLength :: uint
  hLoopStart :: uint
  hLoopEnd :: uint
  hLoopType :: byte

record DumpRequest =
  rChannel :: byte
  rNumber :: uint16

text \<open>\<open>Data\<close> is the array \<open>[120]byte\<close>: a list whose length is 120.\<close>

record DataPacket =
  dChannel :: byte
  dPacketNumber :: byte
  dData :: "byte list"
  dChecksum :: byte

type_synonym ControlPacketType = byte

record ControlPacket =
  cType :: ControlPacketType
  cChannel :: byte
  cPacketNumber :: byte

definition Ack :: ControlPacketType where "Ack = 0x7F"
definition Nak :: ControlPacketType where "Nak = 0x7E"
definition Cancel :: ControlPacketType where "Cancel = 0x7D"
definition Wait :: ControlPacketType where "Wait = 0x7C"

datatype Message =
  MDumpHeader DumpHeader
| MDataPacket DataPacket
| MDumpRequest DumpRequest
| MControlPacket ControlPacket

definition wf_DataPacket :: "DataPacket \<Rightarrow> bool" where
  "wf_DataPacket p = (length (dData p) = 120)"

section \<open>Encoding\<close>

definition append14bit :: "byte list \<Rightarrow> uint16 \<Rightarrow> byte list" where
  "append14bit b num = b @ [ucast num AND 0x7F, ucast (drop_bit 7 num) AND 0x7F]"

definition append20bit :: "byte list \<Rightarrow> uint \<Rightarrow> byte list" where
  "append20bit b num =
     b @ [ucast num AND 0x7F, ucast (drop_bit 7 num) AND 0x7F, ucast (drop_bit 14 num) AND 0x3F]"

definition Encode_DumpHeader :: "DumpHeader \<Rightarrow> byte list \<Rightarrow> byte list" where
  "Encode_DumpHeader msg b0 =
     (let b = b0 @ [0xF0, 0x7E, hChannel msg AND 0x7F, 0x01];
          b = append14bit b (hNumber msg);
          b = b @ [hBitDepth msg AND 0x7F];
          b = append20bit b (hPeriod msg);
          b = append20bit b (hLength msg);
          b = append20bit b (hLoopStart msg);
          b = append20bit b (hLoopEnd msg);
          b = b @ [hLoopType msg AND 0x7F]
      in b @ [0xF7])"

definition Encode_DataPacket :: "DataPacket \<Rightarrow> byte list \<Rightarrow> byte list" where
  "Encode_DataPacket msg b0 =
     (let b = b0 @ [0xF0, 0x7E, dChannel msg AND 0x7F, 0x02];
          b = b @ [dPacketNumber msg AND 0x7F];
          b = b @ dData msg;
          b = b @ [dChecksum msg AND 0x7F]
      in b @ [0xF7])"

definition Encode_DumpRequest :: "DumpRequest \<Rightarrow> byte list \<Rightarrow> byte list" where
  "Encode_DumpRequest msg b0 =
     (let b = b0 @ [0xF0, 0x7E, rChannel msg AND 0x7F, 0x03];
          b = append14bit b (rNumber msg)
      in b @ [0xF7])"

definition Encode_ControlPacket :: "ControlPacket \<Rightarrow> byte list \<Rightarrow> byte list" where
  "Encode_ControlPacket msg b =
     b @ [0xF0, 0x7E, cChannel msg AND 0x7F, cType msg AND 0x7F, cPacketNumber msg AND 0x7F, 0xF7]"

fun Encode :: "Message \<Rightarrow> byte list \<Rightarrow> byte list" where
  "Encode (MDumpHeader m) b = Encode_DumpHeader m b"
| "Encode (MDataPacket m) b = Encode_DataPacket m b"
| "Encode (MDumpRequest m) b = Encode_DumpRequest m b"
| "Encode (MControlPacket m) b = Encode_ControlPacket m b"

section \<open>Decoding\<close>

definition dumpHeaderSize :: nat where "dumpHeaderSize = 21"
definition dumpRequestSize :: nat where "dumpRequestSize = 7"
definition dataPacketSize :: nat where "dataPacketSize = 127"
definition controlPacketSize :: nat where "controlPacketSize = 6"

text \<open>
  The error values of the package: the two declared errors and the three formatted
  ones (\<open>invalid message id %x\<close>, \<open>bad size %d for T\<close>,
  \<open>unsupported bit depth %d in DumpHeader\<close>), each with the arguments of its format.
  \<open>errChecksum\<close> is declared in the source and never returned.
\<close>

datatype error =
  errNotSysex
| errTooShort
| errChecksum
| errInvalidMessageId byte
| errBadSize nat string
| errUnsupportedBitDepth byte

definition prefix :: "byte list" where
  "prefix = [0xF0, 0x7E]"

text \<open>\<open>bytes.HasPrefix(s, p)\<close>: \<open>len(s) >= len(p)\<close> and \<open>s[:len(p)]\<close> equals \<open>p\<close>.\<close>

definition HasPrefix :: "byte list \<Rightarrow> byte list \<Rightarrow> bool" where
  "HasPrefix s p = (length s \<ge> length p \<and> take (length p) s = p)"

definition dec14bit :: "byte \<Rightarrow> byte \<Rightarrow> uint16" where
  "dec14bit l h = ucast (l AND 0x7F) OR push_bit 7 (ucast (h AND 0x7F))"

definition dec20bit :: "byte \<Rightarrow> byte \<Rightarrow> byte \<Rightarrow> uint" where
  "dec20bit l m h =
     ucast (l AND 0x7F) OR push_bit 7 (ucast (m AND 0x7F)) OR push_bit 14 (ucast (h AND 0x3F))"

definition decodeDumpHeader :: "byte list \<Rightarrow> (error + Message) go" where
  "decodeDumpHeader msg =
    (if length msg \<noteq> dumpHeaderSize then Return (Inl (errBadSize (length msg) ''DumpHeader''))
     else
       bind_go (index msg 2) (\<lambda>ch.
       bind_go (index msg 4) (\<lambda>n0. bind_go (index msg 5) (\<lambda>n1.
       bind_go (index msg 6) (\<lambda>bd.
       bind_go (index msg 7) (\<lambda>p0. bind_go (index msg 8) (\<lambda>p1. bind_go (index msg 9) (\<lambda>p2.
       bind_go (index msg 10) (\<lambda>l0. bind_go (index msg 11) (\<lambda>l1. bind_go (index msg 12) (\<lambda>l2.
       bind_go (index msg 13) (\<lambda>s0. bind_go (index msg 14) (\<lambda>s1. bind_go (index msg 15) (\<lambda>s2.
       bind_go (index msg 16) (\<lambda>e0. bind_go (index msg 17) (\<lambda>e1. bind_go (index msg 18) (\<lambda>e2.
       bind_go (index msg 19) (\<lambda>lt.
         let dec = \<lparr> hChannel = ch, hNumber = dec14bit n0 n1, hBitDepth = bd,
                     hPeriod = dec20bit p0 p1 p2, hLength = dec20bit l0 l1 l2,
                     hLoopStart = dec20bit s0 s1 s2, hLoopEnd = dec20bit e0 e1 e2,
                     hLoopType = lt \<rparr>
         in if hBitDepth dec < 8 \<or> hBitDepth dec > 28
            then Return (Inl (errUnsupportedBitDepth (hBitDepth dec)))
            else Return (Inr (MDumpHeader dec))))))))))))))))))))"

definition decodeDataPacket :: "byte list \<Rightarrow> (error + Message) go" where
  "decodeDataPacket msg =
    (if length msg \<noteq> dataPacketSize then Return (Inl (errBadSize (length msg) ''DataPacket''))
     else
       bind_go (index msg 2) (\<lambda>ch.
       bind_go (index msg 4) (\<lambda>pn.
       bind_go (index msg 125) (\<lambda>cs.
       bind_go (subslice msg 5 125) (\<lambda>src.
         let dec = \<lparr> dChannel = ch, dPacketNumber = pn, dData = replicate 120 0, dChecksum = cs \<rparr>;
             dec = dec \<lparr> dData := take 120 src @ drop (length src) (dData dec) \<rparr>
         in Return (Inr (MDataPacket dec)))))))"

definition decodeDumpRequest :: "byte list \<Rightarrow> (error + Message) go" where
  "decodeDumpRequest msg =
    (if length msg \<noteq> dumpRequestSize then Return (Inl (errBadSize (length msg) ''DumpRequest''))
     else
       bind_go (index msg 2) (\<lambda>ch.
       bind_go (index msg 4) (\<lambda>n0. bind_go (index msg 5) (\<lambda>n1.
         Return (Inr (MDumpRequest \<lparr> rChannel = ch, rNumber = dec14bit n0 n1 \<rparr>))))))"

definition decodeControlPacket :: "byte list \<Rightarrow> (error + Message) go" where
  "decodeControlPacket msg =
    (if length msg \<noteq> controlPacketSize
     then Return (Inl (errBadSize (length msg) ''ControlPacket''))
     else
       bind_go (index msg 2) (\<lambda>ch.
       bind_go (index msg 3) (\<lambda>ty.
       bind_go (index msg 4) (\<lambda>pn.
         Return (Inr (MControlPacket \<lparr> cType = ty, cChannel = ch, cPacketNumber = pn \<rparr>))))))"

text \<open>
  The first test is \<open>!bytes.HasPrefix(sysex, prefix) || sysex[len(sysex)-1] != 0xF7\<close>:
  the right operand, with its index expression, is evaluated only when the left one is false.
\<close>

definition Decode :: "byte list \<Rightarrow> (error + Message) go" where
  "Decode sysex =
     bind_go (if \<not> HasPrefix sysex prefix then Return True
              else bind_go (index sysex (int (length sysex) - 1)) (\<lambda>b. Return (b \<noteq> 0xF7)))
       (\<lambda>notSysex.
          if notSysex then Return (Inl errNotSysex)
          else if length sysex < 4 then Return (Inl errTooShort)
          else bind_go (index sysex 3) (\<lambda>subid.
            if subid = 0x01 then decodeDumpHeader sysex
            else if subid = 0x02 then decodeDataPacket sysex
            else if subid = 0x03 then decodeDumpRequest sysex
            else if subid = 0x7C \<or> subid = 0x7D \<or> subid = 0x7E \<or> subid = 0x7F
              then decodeControlPacket sysex
            else Return (Inl (errInvalidMessageId subid))))"

section \<open>Checksum\<close>

text \<open>
  \<open>ComputeChecksum\<close> encodes the packet into the array \<open>buf\<close> (the 127 bytes of the
  encoding fill it exactly), starts from \<open>buf[0]\<close> and, for every index \<open>i\<close> of the
  slice \<open>buf[1 : dataPacketSize-1]\<close> (the range clause yields the indices
  \<open>0, \<dots>, 124\<close> of that slice), folds in \<open>buf[i]\<close>.
\<close>

definition ComputeChecksum :: "DataPacket \<Rightarrow> byte" where
  "ComputeChecksum msg =
     (let buf = Encode_DataPacket msg [];
          c = buf ! 0;
          c = fold (\<lambda>i c. c XOR buf ! i) [0..<length (drop 1 (take (dataPacketSize - 1) buf))] c
      in c AND 0x7F)"

definition xor_fold :: "byte list \<Rightarrow> byte" where
  "xor_fold bs = fold (XOR) bs 0"

section \<open>Sample packing\<close>

text \<open>
  The loops of \<open>write2\<close>, \<open>write3\<close> and \<open>write4\<close>: the first component of the
  result is \<open>samples[si:]\<close>, the second the byte index \<open>di\<close>, the third \<open>msg.Data\<close>.
  In \<open>Data\<close>, of length 120, the indices \<open>di+1\<close>, \<open>di+2\<close>, \<open>di+3\<close> are in range
  whenever \<open>di\<close> is, since 120 is a multiple of 2, 3 and 4.
\<close>

fun write2_loop :: "nat \<Rightarrow> nat \<Rightarrow> uint \<Rightarrow> goint list \<Rightarrow> nat \<Rightarrow> byte list
    \<Rightarrow> goint list \<times> nat \<times> byte list" where
  "write2_loop shiftH shiftL zero [] di data = ([], di, data)"
| "write2_loop shiftH shiftL zero (x # samples) di data =
     (if di < length data then
        let s = x + zero;
            data = data[di := ucast (drop_bit shiftH s) AND 0x7F];
            data = data[di + 1 := ucast (push_bit shiftL s) AND 0x7F]
        in write2_loop shiftH shiftL zero samples (di + 2) data
      else (x # samples, di, data))"

fun write3_loop :: "nat \<Rightarrow> nat \<Rightarrow> nat \<Rightarrow> uint \<Rightarrow> goint list \<Rightarrow> nat \<Rightarrow> byte list
    \<Rightarrow> goint list \<times> nat \<times> byte list" where
  "write3_loop shiftH shiftM shiftL zero [] di data = ([], di, data)"
| "write3_loop shiftH shiftM shiftL zero (x # samples) di data =
     (if di < length data then
        let s = x + zero;
            data = data[di := ucast (drop_bit shiftH s) AND 0x7F];
            data = data[di + 1 := ucast (drop_bit shiftM s) AND 0x7F];
            data = data[di + 2 := ucast (push_bit shiftL s) AND 0x7F]
        in write3_loop shiftH shiftM shiftL zero samples (di + 3) data
      else (x # samples, di, data))"

fun write4_loop :: "nat \<Rightarrow> nat \<Rightarrow> nat \<Rightarrow> nat \<Rightarrow> uint \<Rightarrow> goint list \<Rightarrow> nat \<Rightarrow> byte list
    \<Rightarrow> goint list \<times> nat \<times> byte list" where
  "write4_loop shiftH shiftM1 shiftM2 shiftL zero [] di data = ([], di, data)"
| "write4_loop shiftH shiftM1 shiftM2 shiftL zero (x # samples) di data =
     (if di < length data then
        let s = x + zero;
            data = data[di := ucast (drop_bit shiftH s) AND 0x7F];
            data = data[di + 1 := ucast (drop_bit shiftM1 s) AND 0x7F];
            data = data[di + 2 := ucast (drop_bit shiftM2 s) AND 0x7F];
            data = data[di + 3 := ucast (push_bit shiftL s) AND 0x7F]
        in write4_loop shiftH shiftM1 shiftM2 shiftL zero samples (di + 4) data
      else (x # samples, di, data))"

text \<open>\<open>for ; di < len(msg.Data); di++ { msg.Data[di] = 0 }\<close>\<close>

function zero_remainder :: "nat \<Rightarrow> byte list \<Rightarrow> byte list" where
  "zero_remainder di data =
     (if di < length data then zero_remainder (di + 1) (data[di := 0]) else data)"
  by pat_completeness auto
termination
  by (relation "measure (\<lambda>(di, data). length data - di)") auto

definition write2 :: "DataPacket \<Rightarrow> goint list \<Rightarrow> int \<Rightarrow> DataPacket \<times> goint list" where
  "write2 msg samples bits =
     (let shiftH = nat (bits - 7);
          shiftL = nat (14 - bits);
          zero = push_bit (nat (bits - 1)) 1;
          (rest, di, data) = write2_loop shiftH shiftL zero samples 0 (dData msg)
      in (msg \<lparr> dData := zero_remainder di data \<rparr>, rest))"

definition write3 :: "DataPacket \<Rightarrow> goint list \<Rightarrow> int \<Rightarrow> DataPacket \<times> goint list" where
  "write3 msg samples bits =
     (let shiftH = nat (bits - 7);
          shiftM = nat (bits - 14);
          shiftL = nat (21 - bits);
          zero = push_bit (nat (bits - 1)) 1;
          (rest, di, data) = write3_loop shiftH shiftM shiftL zero samples 0 (dData msg)
      in (msg \<lparr> dData := zero_remainder di data \<rparr>, rest))"

definition write4 :: "DataPacket \<Rightarrow> goint list \<Rightarrow> int \<Rightarrow> DataPacket \<times> goint list" where
  "write4 msg samples bits =
     (let shiftH = nat (bits - 7);
          shiftM1 = nat (bits - 14);
          shiftM2 = nat (bits - 21);
          shiftL = nat (28 - bits);
          zero = push_bit (nat (bits - 1)) 1;
          (rest, di, data) = write4_loop shiftH shiftM1 shiftM2 shiftL zero samples 0 (dData msg)
      in (msg \<lparr> dData := zero_remainder di data \<rparr>, rest))"

text \<open>
  \<open>SetSamples\<close> returns the packet as it leaves it, and the remaining samples. The
  shift counts of the three writers are not negative for the bit depths that reach them.
\<close>

definition SetSamples :: "DataPacket \<Rightarrow> goint list \<Rightarrow> int \<Rightarrow> (DataPacket \<times> goint list) go" where
  "SetSamples msg samples bitDepth =
     (if bitDepth < 8 then Panic ''bit depth < 8 is not supported''
      else if bitDepth \<le> 14 then Return (write2 msg samples bitDepth)
      else if bitDepth \<le> 21 then Return (write3 msg samples bitDepth)
      else if bitDepth \<le> 28 then Return (write4 msg samples bitDepth)
      else Panic ''bit depth > 28 is not supported'')"

text \<open>
  The loops of \<open>read2\<close>, \<open>read3\<close> and \<open>read4\<close> over the byte index \<open>i\<close>, filling
  the array \<open>buf\<close> at \<open>bufIndex\<close>.
\<close>

function read2_loop :: "nat \<Rightarrow> nat \<Rightarrow> uint \<Rightarrow> byte list \<Rightarrow> nat \<Rightarrow> nat \<Rightarrow> goint list
    \<Rightarrow> goint list" where
  "read2_loop shiftH shiftL zero data i bufIndex buf =
     (if i < length data then
        let v = push_bit shiftH (ucast (data ! i AND 0x7F));
            v = v OR drop_bit shiftL (ucast (data ! (i + 1) AND 0x7F))
        in read2_loop shiftH shiftL zero data (i + 2) (bufIndex + 1) (buf[bufIndex := v - zero])
      else buf)"
  by pat_completeness auto
termination
  by (relation "measure (\<lambda>(sh, sl, z, data, i, bi, buf). length data - i)") auto

function read3_loop :: "nat \<Rightarrow> nat \<Rightarrow> nat \<Rightarrow> uint \<Rightarrow> byte list \<Rightarrow> nat \<Rightarrow> nat \<Rightarrow> goint list
    \<Rightarrow> goint list" where
  "read3_loop shiftH shiftM shiftL zero data i bufIndex buf =
     (if i < length data then
        let v = push_bit shiftH (ucast (data ! i AND 0x7F));
            v = v OR push_bit shiftM (ucast (data ! (i + 1) AND 0x7F));
            v = v OR drop_bit shiftL (ucast (data ! (i + 2) AND 0x7F))
        in read3_loop shiftH shiftM shiftL zero data (i + 3) (bufIndex + 1)
             (buf[bufIndex := v - zero])
      else buf)"
  by pat_completeness auto
termination
  by (relation "measure (\<lambda>(sh, sm, sl, z, data, i, bi, buf). length data - i)") auto

function read4_loop :: "nat \<Rightarrow> nat \<Rightarrow> nat \<Rightarrow> nat \<Rightarrow> uint \<Rightarrow> byte list \<Rightarrow> nat \<Rightarrow> nat
    \<Rightarrow> goint list \<Rightarrow> goint list" where
  "read4_loop shiftH shiftM1 shiftM2 shiftL zero data i bufIndex buf =
     (if i < length data then
        let v = push_bit shiftH (ucast (data ! i AND 0x7F));
            v = v OR push_bit shiftM1 (ucast (data ! (i + 1) AND 0x7F));
            v = v OR push_bit shiftM2 (ucast (data ! (i + 2) AND 0x7F));
            v = v OR drop_bit shiftL (ucast (data ! (i + 3) AND 0x7F))
        in read4_loop shiftH shiftM1 shiftM2 shiftL zero data (i + 4) (bufIndex + 1)
             (buf[bufIndex := v - zero])
      else buf)"
  by pat_completeness auto
termination
  by (relation "measure (\<lambda>(sh, sm1, sm2, sl, z, data, i, bi, buf). length data - i)") auto

definition read2 :: "DataPacket \<Rightarrow> goint list \<Rightarrow> int \<Rightarrow> goint list" where
  "read2 msg out bits =
     (let shiftH = nat (bits - 7);
          shiftL = nat (14 - bits);
          zero = push_bit (nat (bits - 1)) 1;
          buf = replicate (length (dData msg) div 2) 0
      in out @ read2_loop shiftH shiftL zero (dData msg) 0 0 buf)"

definition read3 :: "DataPacket \<Rightarrow> goint list \<Rightarrow> int \<Rightarrow> goint list" where
  "read3 msg out bits =
     (let shiftH = nat (bits - 7);
          shiftM = nat (bits - 14);
          shiftL = nat (21 - bits);
          zero = push_bit (nat (bits - 1)) 1;
          buf = replicate (length (dData msg) div 3) 0
      in out @ read3_loop shiftH shiftM shiftL zero (dData msg) 0 0 buf)"

definition read4 :: "DataPacket \<Rightarrow> goint list \<Rightarrow> int \<Rightarrow> goint list" where
  "read4 msg out bits =
     (let shiftH = nat (bits - 7);
          shiftM1 = nat (bits - 14);
          shiftM2 = nat (bits - 21);
          shiftL = nat (28 - bits);
          zero = push_bit (nat (bits - 1)) 1;
          buf = replicate (length (dData msg) div 4) 0
      in out @ read4_loop shiftH shiftM1 shiftM2 shiftL zero (dData msg) 0 0 buf)"

definition GetSamples :: "DataPacket \<Rightarrow> goint list \<Rightarrow> int \<Rightarrow> goint list go" where
  "GetSamples msg s bitDepth =
     (if bitDepth < 8 then Panic ''bit depth < 8 is not supported''
      else if bitDepth \<le> 14 then Return (read2 msg s bitDepth)
      else if bitDepth \<le> 21 then Return (read3 msg s bitDepth)
      else if bitDepth \<le> 28 then Return (read4 msg s bitDepth)
      else Panic ''bit depth > 28 is not supported'')"

section \<open>The transfer session\<close>

text \<open>
  \<open>SendOp\<close>: \<open>length\<close> is the Go \<open>int\<close> \<open>len(samples)\<close> at creation, \<open>bitDepth\<close> the
  header's bit depth as an \<open>int\<close>, \<open>data\<close> the one packet that every call of
  \<open>NextMessage\<close> overwrites.
\<close>

record SendOp =
  sLength :: int
  sBitDepth :: int
  sSamples :: "goint list"
  sData :: DataPacket
  sNum :: byte

text \<open>\<open>NewSendOp\<close> stamps the header with the length of the buffer and returns the session.\<close>

definition NewSendOp :: "goint list \<Rightarrow> DumpHeader \<Rightarrow> SendOp \<times> DumpHeader" where
  "NewSendOp samples h =
     (let h = h \<lparr> hLength := of_nat (length samples) \<rparr>;
          s = \<lparr> sLength = int (length samples),
                sBitDepth = uint (hBitDepth h),
                sSamples = samples,
                sData = \<lparr> dChannel = 0, dPacketNumber = 0, dData = replicate 120 0, dChecksum = 0 \<rparr>,
                sNum = 0 \<rparr>;
          s = s \<lparr> sData := (sData s) \<lparr> dChannel := hChannel h \<rparr> \<rparr>
      in (s, h))"

definition Done :: "SendOp \<Rightarrow> bool" where
  "Done s = (length (sSamples s) = 0)"

definition nextNumber :: "SendOp \<Rightarrow> byte \<times> SendOp" where
  "nextNumber s =
     (let n = sNum s;
          s = (if n \<ge> 127 then s \<lparr> sNum := 0 \<rparr> else s \<lparr> sNum := n + 1 \<rparr>)
      in (n, s))"

text \<open>
  \<open>NextMessage\<close> returns \<open>nil\<close> (here \<open>None\<close>) when the session is done. Otherwise it
  returns the address of the session's packet; the model returns the packet as it stands
  at the return.
\<close>

definition NextMessage :: "SendOp \<Rightarrow> (Message option \<times> SendOp) go" where
  "NextMessage s =
     (if Done s then Return (None, s)
      else
        bind_go (SetSamples (sData s) (sSamples s) (sBitDepth s)) (\<lambda>(data, rest).
          let s = s \<lparr> sData := data, sSamples := rest \<rparr>;
              (n, s) = nextNumber s;
              s = s \<lparr> sData := (sData s) \<lparr> dPacketNumber := n \<rparr> \<rparr>;
              s = s \<lparr> sData := (sData s) \<lparr> dChecksum := ComputeChecksum (sData s) \<rparr> \<rparr>
          in Return (Some (MDataPacket (sData s)), s)))"

section \<open>Progress\<close>

text \<open>
  \<open>Progress\<close> computes in \<open>float64\<close>. A finite \<open>float64\<close> is modelled by the rational
  number it denotes, and each operation by the exact result rounded to the nearest
  \<open>float64\<close>, ties to the even significand (IEEE 754 binary64, 53 significant bits).
  The exponent range is not modelled: \<open>fl64\<close> is the rounding of IEEE 754 for magnitudes
  from \<open>2^-1022\<close> up to \<open>2^1024\<close>, which holds all values that \<open>Progress\<close> computes
  from Go \<open>int\<close>s.
\<close>

fun bit_length :: "nat \<Rightarrow> nat" where
  "bit_length n = (if n = 0 then 0 else Suc (bit_length (n div 2)))"

text \<open>The binary exponent of a positive rational: \<open>2^e \<le> x < 2^(e+1)\<close>.\<close>

definition ilog2 :: "rat \<Rightarrow> int" where
  "ilog2 x = (if 1 \<le> x then int (bit_length (nat \<lfloor>x\<rfloor>)) - 1
              else - int (bit_length (nat (\<lceil>1 / x\<rceil> - 1))))"

definition round_half_even :: "rat \<Rightarrow> int" where
  "round_half_even x =
     (let f = \<lfloor>x\<rfloor>; r = x - of_int f
      in if r < 1 / 2 then f else if 1 / 2 < r then f + 1 else if even f then f else f + 1)"

definition fl64 :: "rat \<Rightarrow> rat" where
  "fl64 x =
     (if x = 0 then 0
      else let e = ilog2 \<bar>x\<bar>; ulp = 2 powi (e - 52)
           in sgn x * of_int (round_half_even (\<bar>x\<bar> / ulp)) * ulp)"

text \<open>The conversions \<open>float64(n)\<close> of an \<open>int\<close> and \<open>int(x)\<close> of a \<open>float64\<close> in range.\<close>

definition float64_of_int :: "int \<Rightarrow> rat" where
  "float64_of_int n = fl64 (of_int n)"

definition int_of_float64 :: "rat \<Rightarrow> int" where
  "int_of_float64 x = (if 0 \<le> x then \<lfloor>x\<rfloor> else \<lceil>x\<rceil>)"

text \<open>\<open>math.Round\<close>: the nearest integer, rounding half away from zero.\<close>

definition math_Round :: "rat \<Rightarrow> rat" where
  "math_Round x = (if 0 \<le> x then of_int \<lfloor>x + 1 / 2\<rfloor> else - of_int \<lfloor>- x + 1 / 2\<rfloor>)"

text \<open>
  \<open>Progress\<close>. With \<open>length = 0\<close> the quotient is NaN or an infinity, whose conversion
  to \<open>int\<close> the language leaves to the implementation: no result is modelled.
\<close>

definition Progress :: "SendOp \<Rightarrow> int option" where
  "Progress s =
     (let done = sLength s - int (length (sSamples s))
      in if sLength s = 0 then None
         else Some (int_of_float64 (math_Round
                (fl64 (fl64 (float64_of_int done / float64_of_int (sLength s)) * 100)))))"

section \<open>The data loop of the sender\<close>

text \<open>
  The connection: \<open>incoming\<close> lists, in the order in which the \<open>select\<close> of \<open>receive\<close>
  takes them, the frames arriving on \<open>PacketCh\<close> and the expirations of the timers of
  successive \<open>receive\<close> calls; \<open>written\<close> lists the messages passed to \<open>Write\<close>. The
  output device accepts every write (a write error ends the process).
\<close>

datatype arrival = Frame "byte list" | Expired

record Conn =
  incoming :: "arrival list"
  written :: "byte list list"

text \<open>
  \<open>receive\<close> skips the frames that do not decode and returns the first message, or
  \<open>nil\<close> when the timer expires first. When the arrivals run out the call is still
  waiting: the result is \<open>None\<close>.
\<close>

fun receive :: "arrival list \<Rightarrow> (Message option \<times> arrival list) option go" where
  "receive [] = Return None"
| "receive (Expired # ins) = Return (Some (None, ins))"
| "receive (Frame rawmsg # ins) =
     (case Decode rawmsg of
        Panic s \<Rightarrow> Panic s
      | Return (Inl err) \<Rightarrow> receive ins
      | Return (Inr msg) \<Rightarrow> Return (Some (Some msg, ins)))"

text \<open>\<open>send\<close> calls the method \<open>Encode\<close> of the message: on \<open>nil\<close> that is a panic.\<close>

definition send :: "Conn \<Rightarrow> Message option \<Rightarrow> Conn go" where
  "send conn msg =
     (case msg of
        None \<Rightarrow> Panic ''nil pointer dereference''
      | Some m \<Rightarrow> Return (conn \<lparr> written := written conn @ [Encode m []] \<rparr>))"

text \<open>The variables of \<open>transferData\<close>, and how a run of the loop ends.\<close>

record loop =
  lTransfer :: SendOp
  lWaiting :: bool
  lProgress :: int
  lConn :: Conn

datatype ending = Completed | Fatal string | Starved

text \<open>The progress report at the end of the loop body (the log line is not modelled).\<close>

definition report :: "loop \<Rightarrow> loop" where
  "report st =
     (case Progress (lTransfer st) of
        None \<Rightarrow> st
      | Some p \<Rightarrow>
          if p - lProgress st > 5 \<or> (p = 100 \<and> lProgress st \<noteq> 100)
          then st \<lparr> lProgress := p \<rparr> else st)"

text \<open>
  The loop body in three steps. First \<open>if !waiting { send(conn, transfer.NextMessage()) }\<close>.
\<close>

definition send_next :: "loop \<Rightarrow> loop go" where
  "send_next st =
     (if \<not> lWaiting st then
        bind_go (NextMessage (lTransfer st)) (\<lambda>(m, t).
        bind_go (send (lConn st) m) (\<lambda>c.
          Return (st \<lparr> lTransfer := t, lConn := c \<rparr>)))
      else Return st)"

text \<open>
  Then the switch on the message received, and the progress report. The result \<open>None\<close>
  goes on to the next test of the loop condition; \<open>log.Fatalf\<close> ends the process;
  \<open>continue\<close> skips the progress report. A message that is no control packet matches
  no case of the switch.
\<close>

definition respond :: "int \<Rightarrow> loop \<Rightarrow> Message option \<Rightarrow> ending option \<times> loop" where
  "respond channel st msg =
     (case msg of
        None \<Rightarrow> (None, report st)
      | Some (MControlPacket c) \<Rightarrow>
          if cChannel c \<noteq> word_of_int channel then (None, st)
          else
            let st = st \<lparr> lWaiting := False \<rparr>
            in if cType c = Ack then (None, report st)
               else if cType c = Nak then (Some (Fatal ''<< NAK''), st)
               else if cType c = Cancel then (Some (Fatal ''<< CANCEL''), st)
               else if cType c = Wait then (None, report (st \<lparr> lWaiting := True \<rparr>))
               else (None, report st)
      | Some _ \<Rightarrow> (None, report st))"

definition iteration :: "int \<Rightarrow> loop \<Rightarrow> (ending option \<times> loop) go" where
  "iteration channel st0 =
     bind_go (send_next st0) (\<lambda>st1.
     bind_go (receive (incoming (lConn st1))) (\<lambda>r.
       case r of
         None \<Rightarrow> Return (Some Starved, st1)
       | Some (msg, ins) \<Rightarrow>
           Return (respond channel (st1 \<lparr> lConn := (lConn st1) \<lparr> incoming := ins \<rparr> \<rparr>) msg)))"

lemma receive_consumes:
  "receive ins = Return (Some (msg, rest)) \<Longrightarrow> length rest < length ins"
proof (induction ins)
  case Nil
  then show ?case by simp
next
  case (Cons a ins)
  then show ?case
    by (cases a) (auto split: go.splits sum.splits)
qed

lemma send_next_incoming:
  "send_next st = Return st1 \<Longrightarrow> incoming (lConn st1) = incoming (lConn st)"
  by (cases "NextMessage (lTransfer st)")
     (auto simp add: send_next_def send_def split: if_splits option.splits)

lemma report_incoming: "incoming (lConn (report st)) = incoming (lConn st)"
  by (simp add: report_def split: option.splits)

lemma respond_incoming:
  "incoming (lConn (snd (respond channel st msg))) = incoming (lConn st)"
  by (simp add: respond_def report_incoming Let_def split: option.splits Message.splits)

lemma iteration_consumes:
  assumes "iteration channel st = Return (None, st')"
  shows "length (incoming (lConn st')) < length (incoming (lConn st))"
proof -
  from assms obtain st1 where 1: "send_next st = Return st1"
    by (cases "send_next st") (simp_all add: iteration_def)
  with assms obtain msg ins where 2: "receive (incoming (lConn st1)) = Return (Some (msg, ins))"
    and 3: "respond channel (st1 \<lparr> lConn := (lConn st1) \<lparr> incoming := ins \<rparr> \<rparr>) msg = (None, st')"
    by (cases "receive (incoming (lConn st1))")
       (auto simp add: iteration_def split: option.splits)
  from 3 respond_incoming [of channel "st1 \<lparr> lConn := (lConn st1) \<lparr> incoming := ins \<rparr> \<rparr>" msg]
  have "incoming (lConn st') = ins" by simp
  with receive_consumes [OF 2] send_next_incoming [OF 1] show ?thesis by simp
qed

text \<open>The loop \<open>for !transfer.Done() { \<dots> }\<close>.\<close>

function transferData_loop :: "int \<Rightarrow> loop \<Rightarrow> (ending \<times> loop) go" where
  "transferData_loop channel st =
     (if Done (lTransfer st) then Return (Completed, st)
      else
        (case iteration channel st of
           Panic s \<Rightarrow> Panic s
         | Return (Some e, st') \<Rightarrow> Return (e, st')
         | Return (None, st') \<Rightarrow> transferData_loop channel st'))"
  by pat_completeness auto
termination
  by (relation "measure (\<lambda>(channel, st). length (incoming (lConn st)))")
     (auto dest: iteration_consumes)

text \<open>\<open>transferData\<close>: the loop from \<open>progress = 0\<close>, \<open>waiting = false\<close>.\<close>

definition transferData :: "int \<Rightarrow> Conn \<Rightarrow> SendOp \<Rightarrow> (ending \<times> loop) go" where
  "transferData channel conn transfer =
     transferData_loop channel
       \<lparr> lTransfer = transfer, lWaiting = False, lProgress = 0, lConn = conn \<rparr>"

section \<open>Notions of the specification\<close>

text \<open>
  The outcome of \<open>Decode\<close> in the words of the specification: one of its five codec
  errors, or the variant decoded.
\<close>

datatype verdict =
  NotSysex | TooShort | UnknownMessageType | BadSize | UnsupportedBitDepth
| IsHeader | IsDataPacket | IsDumpRequest | IsControlPacket

fun verdict_of :: "(error + Message) go \<Rightarrow> verdict option" where
  "verdict_of (Return (Inl errNotSysex)) = Some NotSysex"
| "verdict_of (Return (Inl errTooShort)) = Some TooShort"
| "verdict_of (Return (Inl (errInvalidMessageId b))) = Some UnknownMessageType"
| "verdict_of (Return (Inl (errBadSize n t))) = Some BadSize"
| "verdict_of (Return (Inl (errUnsupportedBitDepth d))) = Some UnsupportedBitDepth"
| "verdict_of (Return (Inl errChecksum)) = None"
| "verdict_of (Return (Inr (MDumpHeader h))) = Some IsHeader"
| "verdict_of (Return (Inr (MDataPacket p))) = Some IsDataPacket"
| "verdict_of (Return (Inr (MDumpRequest r))) = Some IsDumpRequest"
| "verdict_of (Return (Inr (MControlPacket c))) = Some IsControlPacket"
| "verdict_of (Panic s) = None"

definition spec_Decode_verdict :: "byte list \<Rightarrow> verdict" where
  "spec_Decode_verdict bs =
     (if take 2 bs \<noteq> [0xF0, 0x7E] \<or> bs = [] \<or> last bs \<noteq> 0xF7 then NotSysex
      else if length bs < 4 then TooShort
      else if bs ! 3 = 0x01 then
        (if length bs \<noteq> 21 then BadSize
         else if bs ! 6 < 8 \<or> 28 < bs ! 6 then UnsupportedBitDepth
         else IsHeader)
      else if bs ! 3 = 0x02 then (if length bs \<noteq> 127 then BadSize else IsDataPacket)
      else if bs ! 3 = 0x03 then (if length bs \<noteq> 7 then BadSize else IsDumpRequest)
      else if bs ! 3 \<in> {0x7C, 0x7D, 0x7E, 0x7F} then
        (if length bs \<noteq> 6 then BadSize else IsControlPacket)
      else UnknownMessageType)"

text \<open>
  The declared widths of the numeric fields of a message: 7 bits for channel, loop type,
  checksum, packet number and control type, a bit depth from 8 to 28, 14 bits for the
  waveform number, 20 bits for period, length, loop start and loop end.
\<close>

fun within_declared_widths :: "Message \<Rightarrow> bool" where
  "within_declared_widths (MDumpHeader h) =
     (hChannel h < 0x80 \<and> 8 \<le> hBitDepth h \<and> hBitDepth h \<le> 28 \<and> hLoopType h < 0x80 \<and>
      hNumber h < 2 ^ 14 \<and> hPeriod h < 2 ^ 20 \<and> hLength h < 2 ^ 20 \<and>
      hLoopStart h < 2 ^ 20 \<and> hLoopEnd h < 2 ^ 20)"
| "within_declared_widths (MDumpRequest r) = (rChannel r < 0x80 \<and> rNumber r < 2 ^ 14)"
| "within_declared_widths (MDataPacket p) =
     (dChannel p < 0x80 \<and> dPacketNumber p < 0x80 \<and> dChecksum p < 0x80 \<and> length (dData p) = 120)"
| "within_declared_widths (MControlPacket c) =
     (cChannel c < 0x80 \<and> cPacketNumber c < 0x80 \<and> cType c < 0x80)"

fun is_control_type :: "Message \<Rightarrow> bool" where
  "is_control_type (MControlPacket c) = (cType c = Ack \<or> cType c = Nak \<or> cType c = Cancel \<or> cType c = Wait)"
| "is_control_type _ = True"

text \<open>
  The capacity of one packet in samples, the bytes per sample, and the signed range of a
  sample at a bit depth.
\<close>

definition capacity :: "int \<Rightarrow> nat" where
  "capacity d = (if d \<le> 14 then 60 else if d \<le> 21 then 40 else 30)"

definition group_size :: "int \<Rightarrow> nat" where
  "group_size d = (if d \<le> 14 then 2 else if d \<le> 21 then 3 else 4)"

definition in_sample_range :: "int \<Rightarrow> goint \<Rightarrow> bool" where
  "in_sample_range d s = (- (2 ^ nat (d - 1)) \<le> sint s \<and> sint s < 2 ^ nat (d - 1))"

text \<open>
  Decoding with \<open>GetSamples\<close> the packet that one call of \<open>SetSamples\<close> produced,
  truncated to the original sample count.
\<close>

definition roundtrip_one_packet :: "DataPacket \<Rightarrow> goint list \<Rightarrow> int \<Rightarrow> goint list go" where
  "roundtrip_one_packet p samples d =
     bind_go (SetSamples p samples d) (\<lambda>(p', rest).
     bind_go (GetSamples p' [] d) (\<lambda>out. Return (take (length samples) out)))"

text \<open>
  \<open>n\<close> successive calls of \<open>NextMessage\<close> on a session: the messages returned, in
  order, and the session after the last call. The packet number of a returned message.
\<close>

fun calls :: "nat \<Rightarrow> SendOp \<Rightarrow> (Message option list \<times> SendOp) go" where
  "calls 0 s = Return ([], s)"
| "calls (Suc n) s =
     bind_go (NextMessage s) (\<lambda>(m, s').
     bind_go (calls n s') (\<lambda>(ms, s''). Return (m # ms, s'')))"

fun packet_number :: "Message option \<Rightarrow> nat option" where
  "packet_number (Some (MDataPacket p)) = Some (unat (dPacketNumber p))"
| "packet_number _ = None"

definition packet_numbers :: "nat \<Rightarrow> goint list \<Rightarrow> DumpHeader \<Rightarrow> nat option list go" where
  "packet_numbers n samples h =
     bind_go (calls n (fst (NewSendOp samples h))) (\<lambda>(ms, s). Return (map packet_number ms))"

text \<open>
  An arrival releases a waiting sender when it is a frame that decodes to a control packet
  on the sender's channel of type \<open>Ack\<close>, \<open>Nak\<close> or \<open>Cancel\<close>.
\<close>

fun releases :: "int \<Rightarrow> arrival \<Rightarrow> bool" where
  "releases channel Expired = False"
| "releases channel (Frame rawmsg) =
     (case Decode rawmsg of
        Return (Inr (MControlPacket c)) \<Rightarrow>
          cChannel c = word_of_int channel \<and> (cType c = Ack \<or> cType c = Nak \<or> cType c = Cancel)
      | _ \<Rightarrow> False)"

text \<open>
  The progress, the completion and the number of remaining samples of a session after
  \<open>n\<close> calls of \<open>NextMessage\<close>.
\<close>

definition progress_after :: "nat \<Rightarrow> goint list \<Rightarrow> DumpHeader \<Rightarrow> int option go" where
  "progress_after n samples h =
     bind_go (calls n (fst (NewSendOp samples h))) (\<lambda>(ms, s). Return (Progress s))"

definition done_after :: "nat \<Rightarrow> goint list \<Rightarrow> DumpHeader \<Rightarrow> bool go" where
  "done_after n samples h =
     bind_go (calls n (fst (NewSendOp samples h))) (\<lambda>(ms, s). Return (Done s))"

definition remaining_after :: "nat \<Rightarrow> goint list \<Rightarrow> DumpHeader \<Rightarrow> nat go" where
  "remaining_after n samples h =
     bind_go (calls n (fst (NewSendOp samples h))) (\<lambda>(ms, s). Return (length (sSamples s)))"

text \<open>
  Decoding a whole session: the packets of \<open>n\<close> calls of \<open>NextMessage\<close>, each decoded
  with \<open>GetSamples\<close> onto the samples decoded so far, and the result truncated to the
  original sample count.
\<close>

fun decode_all :: "Message option list \<Rightarrow> goint list \<Rightarrow> int \<Rightarrow> goint list go" where
  "decode_all [] out d = Return out"
| "decode_all (Some (MDataPacket p) # ms) out d =
     bind_go (GetSamples p out d) (\<lambda>out'. decode_all ms out' d)"
| "decode_all (m # ms) out d = decode_all ms out d"

definition roundtrip_session :: "nat \<Rightarrow> goint list \<Rightarrow> DumpHeader \<Rightarrow> goint list go" where
  "roundtrip_session n samples h =
     bind_go (calls n (fst (NewSendOp samples h))) (\<lambda>(ms, s).
     bind_go (decode_all ms [] (uint (hBitDepth h))) (\<lambda>out.
       Return (take (length samples) out)))"

section \<open>Auxiliary notions of the proofs\<close>

text \<open>The bytes written for one sample, and the sample read from one group of bytes.\<close>

definition enc_hi :: "nat \<Rightarrow> uint \<Rightarrow> byte" where
  "enc_hi sh u = ucast (drop_bit sh u) AND 0x7F"

definition enc_lo :: "nat \<Rightarrow> uint \<Rightarrow> byte" where
  "enc_lo sh u = ucast (push_bit sh u) AND 0x7F"

definition enc2 :: "nat \<Rightarrow> nat \<Rightarrow> uint \<Rightarrow> goint \<Rightarrow> byte list" where
  "enc2 H L z x = [enc_hi H (x + z), enc_lo L (x + z)]"

definition enc3 :: "nat \<Rightarrow> nat \<Rightarrow> nat \<Rightarrow> uint \<Rightarrow> goint \<Rightarrow> byte list" where
  "enc3 H M L z x = [enc_hi H (x + z), enc_hi M (x + z), enc_lo L (x + z)]"

definition enc4 :: "nat \<Rightarrow> nat \<Rightarrow> nat \<Rightarrow> nat \<Rightarrow> uint \<Rightarrow> goint \<Rightarrow> byte list" where
  "enc4 H M1 M2 L z x = [enc_hi H (x + z), enc_hi M1 (x + z), enc_hi M2 (x + z), enc_lo L (x + z)]"

definition dec2 :: "nat \<Rightarrow> nat \<Rightarrow> uint \<Rightarrow> byte \<Rightarrow> byte \<Rightarrow> goint" where
  "dec2 H L z a b =
     (push_bit H (ucast (a AND 0x7F)) OR drop_bit L (ucast (b AND 0x7F))) - z"

definition dec3 :: "nat \<Rightarrow> nat \<Rightarrow> nat \<Rightarrow> uint \<Rightarrow> byte \<Rightarrow> byte \<Rightarrow> byte \<Rightarrow> goint" where
  "dec3 H M L z a b c =
     ((push_bit H (ucast (a AND 0x7F)) OR push_bit M (ucast (b AND 0x7F)))
       OR drop_bit L (ucast (c AND 0x7F))) - z"

definition dec4 :: "nat \<Rightarrow> nat \<Rightarrow> nat \<Rightarrow> nat \<Rightarrow> uint \<Rightarrow> byte \<Rightarrow> byte \<Rightarrow> byte \<Rightarrow> byte \<Rightarrow> goint" where
  "dec4 H M1 M2 L z a b c d =
     (((push_bit H (ucast (a AND 0x7F)) OR push_bit M1 (ucast (b AND 0x7F)))
       OR push_bit M2 (ucast (c AND 0x7F))) OR drop_bit L (ucast (d AND 0x7F))) - z"

fun dec2_list :: "nat \<Rightarrow> nat \<Rightarrow> uint \<Rightarrow> byte list \<Rightarrow> goint list" where
  "dec2_list H L z (a # b # bs) = dec2 H L z a b # dec2_list H L z bs"
| "dec2_list H L z bs = []"

fun dec3_list :: "nat \<Rightarrow> nat \<Rightarrow> nat \<Rightarrow> uint \<Rightarrow> byte list \<Rightarrow> goint list" where
  "dec3_list H M L z (a # b # c # bs) = dec3 H M L z a b c # dec3_list H M L z bs"
| "dec3_list H M L z bs = []"

fun dec4_list :: "nat \<Rightarrow> nat \<Rightarrow> nat \<Rightarrow> nat \<Rightarrow> uint \<Rightarrow> byte list \<Rightarrow> goint list" where
  "dec4_list H M1 M2 L z (a # b # c # d # bs) = dec4 H M1 M2 L z a b c d # dec4_list H M1 M2 L z bs"
| "dec4_list H M1 M2 L z bs = []"

text \<open>A session with a supported bit depth and a packet of 120 payload bytes.\<close>

definition session_ok :: "SendOp \<Rightarrow> bool" where
  "session_ok s = (8 \<le> sBitDepth s \<and> sBitDepth s \<le> 28 \<and> length (dData (sData s)) = 120)"

text \<open>A received message, or a timeout, that leaves a waiting sender waiting.\<close>

definition holds_waiting :: "int \<Rightarrow> Message option \<Rightarrow> bool" where
  "holds_waiting channel msg =
     (case msg of
        Some (MControlPacket c) \<Rightarrow> cChannel c = word_of_int channel \<longrightarrow> cType c = Wait
      | _ \<Rightarrow> True)"

text \<open>The percentage that \<open>Progress\<close> computes from \<open>done\<close> and \<open>length\<close>.\<close>

definition progress_of :: "int \<Rightarrow> int \<Rightarrow> int" where
  "progress_of a t =
     int_of_float64 (math_Round (fl64 (fl64 (float64_of_int a / float64_of_int t) * 100)))"

section \<open>Properties of the codec\<close>

declare zero_remainder.simps [simp del]
declare read2_loop.simps [simp del]
declare read3_loop.simps [simp del]
declare read4_loop.simps [simp del]

lemma HasPrefix_take: "HasPrefix bs prefix \<longleftrightarrow> take 2 bs = [0xF0, 0x7E]"
  by (cases bs; cases "tl bs") (auto simp add: HasPrefix_def prefix_def)

lemma index_last: "bs \<noteq> [] \<Longrightarrow> index bs (int (length bs) - 1) = Return (last bs)"
  by (cases bs) (simp_all add: index_def nat_diff_distrib last_conv_nth)

lemma Decode_dispatch:
  "Decode bs =
     (if \<not> HasPrefix bs prefix \<or> last bs \<noteq> 0xF7 then Return (Inl errNotSysex)
      else if length bs < 4 then Return (Inl errTooShort)
      else if bs ! 3 = 0x01 then decodeDumpHeader bs
      else if bs ! 3 = 0x02 then decodeDataPacket bs
      else if bs ! 3 = 0x03 then decodeDumpRequest bs
      else if bs ! 3 = 0x7C \<or> bs ! 3 = 0x7D \<or> bs ! 3 = 0x7E \<or> bs ! 3 = 0x7F
        then decodeControlPacket bs
      else Return (Inl (errInvalidMessageId (bs ! 3))))"
proof (cases "HasPrefix bs prefix")
  case False
  then show ?thesis by (simp add: Decode_def)
next
  case True
  then have "bs \<noteq> []" by (auto simp add: HasPrefix_def prefix_def)
  then have l: "index bs (int (length bs) - 1) = Return (last bs)" by (rule index_last)
  show ?thesis
  proof (cases "length bs < 4")
    case True
    with \<open>HasPrefix bs prefix\<close> l show ?thesis by (simp add: Decode_def)
  next
    case False
    then have "index bs 3 = Return (bs ! 3)" by (simp add: index_def)
    with \<open>HasPrefix bs prefix\<close> l False show ?thesis by (simp add: Decode_def)
  qed
qed

lemma decodeDumpHeader_total: "\<exists>r. decodeDumpHeader bs = Return r"
  by (simp add: decodeDumpHeader_def index_def dumpHeaderSize_def Let_def)

lemma decodeDataPacket_total: "\<exists>r. decodeDataPacket bs = Return r"
  by (simp add: decodeDataPacket_def index_def subslice_def dataPacketSize_def Let_def)

lemma decodeDumpRequest_total: "\<exists>r. decodeDumpRequest bs = Return r"
  by (simp add: decodeDumpRequest_def index_def dumpRequestSize_def)

lemma decodeControlPacket_total: "\<exists>r. decodeControlPacket bs = Return r"
  by (simp add: decodeControlPacket_def index_def controlPacketSize_def)

lemma Decode_returns: "\<exists>r. Decode bs = Return r"
proof (cases "HasPrefix bs prefix \<and> last bs = 0xF7 \<and> 4 \<le> length bs")
  case False
  then show ?thesis by (auto simp add: Decode_dispatch)
next
  case True
  then show ?thesis
    using decodeDumpHeader_total [of bs] decodeDataPacket_total [of bs]
      decodeDumpRequest_total [of bs] decodeControlPacket_total [of bs]
    by (auto simp add: Decode_dispatch)
qed


text \<open>
  Claim C10: \<open>Decode\<close> is total over arbitrary byte sequences. For every input, the
  empty sequence and the sequences of length 1 to 3 included, it returns (a message or an
  error value) and does not panic: no index expression is evaluated out of bounds, since
  the prefix test short-circuits before the access to the last byte.
\<close>

theorem Decode_total: "\<exists>r. Decode bs = Return r"
  by (rule Decode_returns)

theorem Decode_total_witness:
  "Decode [] = Return (Inl errNotSysex) \<and>
   Decode [0xF0] = Return (Inl errNotSysex) \<and>
   Decode [0xF0, 0x7E] = Return (Inl errNotSysex) \<and>
   Decode [0xF0, 0x7E, 0xF7] = Return (Inl errTooShort)"
  using Decode_total [of "[]"] Decode_total [of "[0xF0]"] Decode_total [of "[0xF0, 0x7E]"]
    Decode_total [of "[0xF0, 0x7E, 0xF7]"]
  by (simp add: Decode_def HasPrefix_def prefix_def index_def)

lemma verdict_decodeDumpHeader:
  "verdict_of (decodeDumpHeader bs) =
     Some (if length bs \<noteq> 21 then BadSize
           else if bs ! 6 < 8 \<or> 28 < bs ! 6 then UnsupportedBitDepth else IsHeader)"
  by (simp add: decodeDumpHeader_def dumpHeaderSize_def index_def Let_def)

lemma verdict_decodeDataPacket:
  "verdict_of (decodeDataPacket bs) = Some (if length bs \<noteq> 127 then BadSize else IsDataPacket)"
  by (simp add: decodeDataPacket_def dataPacketSize_def index_def subslice_def Let_def)

lemma verdict_decodeDumpRequest:
  "verdict_of (decodeDumpRequest bs) = Some (if length bs \<noteq> 7 then BadSize else IsDumpRequest)"
  by (simp add: decodeDumpRequest_def dumpRequestSize_def index_def)

lemma verdict_decodeControlPacket:
  "verdict_of (decodeControlPacket bs) = Some (if length bs \<noteq> 6 then BadSize else IsControlPacket)"
  by (simp add: decodeControlPacket_def controlPacketSize_def index_def)

text \<open>
  Claim C6: for every input byte sequence, \<open>Decode\<close> fails with NotSysex when the prefix
  \<open>0xF0 0x7E\<close> or the trailing \<open>0xF7\<close> is absent; otherwise with TooShort when the
  length is below 4; otherwise it dispatches on the sub-ID byte (\<open>0x01\<close> header,
  \<open>0x02\<close> data packet, \<open>0x03\<close> dump request, \<open>0x7C\<close> to \<open>0x7F\<close> control packet,
  anything else UnknownMessageType); the variant decoders fail with BadSize unless the
  total length is exactly 21, 127, 7 or 6 bytes, and the header decoder fails with
  UnsupportedBitDepth unless the bit depth lies in 8 to 28. The outcome of \<open>Decode\<close> is
  the verdict of the specification.
\<close>

theorem Decode_validation: "verdict_of (Decode bs) = Some (spec_Decode_verdict bs)"
proof (cases "HasPrefix bs prefix")
  case False
  then show ?thesis
    by (simp add: Decode_dispatch spec_Decode_verdict_def HasPrefix_take)
next
  case True
  then have "bs \<noteq> []" by (auto simp add: HasPrefix_def prefix_def)
  with True show ?thesis
    unfolding Decode_dispatch spec_Decode_verdict_def
    by (simp add: HasPrefix_take verdict_decodeDumpHeader verdict_decodeDataPacket
          verdict_decodeDumpRequest verdict_decodeControlPacket)
qed

theorem Decode_validation_witness:
  "verdict_of (Decode [0xF0, 0x7E, 0xF7]) = Some TooShort \<and>
   verdict_of (Decode [0xF0, 0x7E, 0x00, 0x7F, 0x00, 0xF7]) = Some IsControlPacket \<and>
   verdict_of (Decode [0xF0, 0x7E, 0x00, 0x7F, 0xF7]) = Some BadSize \<and>
   verdict_of (Decode [0xF0, 0x7E, 0x00, 0x05, 0xF7]) = Some UnknownMessageType \<and>
   verdict_of (Decode [0xF0, 0x7E, 0x00, 0x05]) = Some NotSysex \<and>
   verdict_of (Decode [0x00, 0x7E, 0x00, 0x05, 0xF7]) = Some NotSysex \<and>
   verdict_of (Decode ([0xF0, 0x7E, 0x00, 0x01, 0x00, 0x00, 0x07] @ replicate 13 0 @ [0xF7]))
     = Some UnsupportedBitDepth \<and>
   verdict_of (Decode ([0xF0, 0x7E, 0x00, 0x01, 0x00, 0x00, 0x10] @ replicate 13 0 @ [0xF7]))
     = Some IsHeader"
  using Decode_validation [of "[0xF0, 0x7E, 0xF7]"]
    Decode_validation [of "[0xF0, 0x7E, 0x00, 0x7F, 0x00, 0xF7]"]
    Decode_validation [of "[0xF0, 0x7E, 0x00, 0x7F, 0xF7]"]
    Decode_validation [of "[0xF0, 0x7E, 0x00, 0x05, 0xF7]"]
    Decode_validation [of "[0xF0, 0x7E, 0x00, 0x05]"]
    Decode_validation [of "[0x00, 0x7E, 0x00, 0x05, 0xF7]"]
    Decode_validation [of "[0xF0, 0x7E, 0x00, 0x01, 0x00, 0x00, 0x07] @ replicate 13 0 @ [0xF7]"]
    Decode_validation [of "[0xF0, 0x7E, 0x00, 0x01, 0x00, 0x00, 0x10] @ replicate 13 0 @ [0xF7]"]
  by (simp add: spec_Decode_verdict_def nth_append)

lemma m7: "(0x7F::'a::len word) = mask 7" by (simp add: mask_eq_exp_minus_1)
lemma m6: "(0x3F::'a::len word) = mask 6" by (simp add: mask_eq_exp_minus_1)

lemma less_pow_bit: "n < 2 ^ k \<Longrightarrow> bit n i \<Longrightarrow> i < k" for n :: "'a::len word"
  by (metis bit_take_bit_iff less_mask_eq take_bit_eq_mask)

lemma dec14bit_append:
  fixes n :: uint16
  assumes "n < 2 ^ 14"
  shows "dec14bit (ucast n AND 0x7F) (ucast (drop_bit 7 n) AND 0x7F) = n"
proof -
  have hi: "\<And>i. bit n i \<Longrightarrow> i < 14" using assms by (rule less_pow_bit)
  show ?thesis
    unfolding dec14bit_def m7
    by (rule bit_word_eqI) (auto simp add: bit_simps dest: hi)
qed

lemma dec20bit_append:
  fixes n :: uint
  assumes "n < 2 ^ 20"
  shows "dec20bit (ucast n AND 0x7F) (ucast (drop_bit 7 n) AND 0x7F) (ucast (drop_bit 14 n) AND 0x3F) = n"
    (is "?l = n")
proof -
  have hi: "\<And>i. bit n i \<Longrightarrow> i < 20" using assms by (rule less_pow_bit)
  have "bit ?l i = bit n i" for i
  proof -
    consider "i < 7" | "7 \<le> i \<and> i < 14" | "14 \<le> i" by linarith
    then show ?thesis
      unfolding dec20bit_def m7 m6
      by cases (auto simp add: bit_simps dest: hi)
  qed
  then show ?thesis by (simp add: bit_eq_iff)
qed

lemma and7F: "x < 0x80 \<Longrightarrow> x AND 0x7F = x" for x :: byte
  using less_mask_eq [of x 7] by (simp add: m7)
lemma and7F_depth: "x \<le> 28 \<Longrightarrow> x AND 0x7F = x" for x :: byte
  by (rule and7F) (erule order_le_less_trans, simp)

lemma roundtrip_DumpHeader:
  assumes "within_declared_widths (MDumpHeader h)"
  shows "Decode (Encode (MDumpHeader h) []) = Return (Inr (MDumpHeader h))"
  using assms
  by (simp add: Decode_def Encode_DumpHeader_def append14bit_def append20bit_def Let_def
      HasPrefix_def prefix_def index_def decodeDumpHeader_def dumpHeaderSize_def
      dec14bit_append dec20bit_append and7F and7F_depth linorder_not_less)

lemma roundtrip_DumpRequest:
  assumes "within_declared_widths (MDumpRequest h)"
  shows "Decode (Encode (MDumpRequest h) []) = Return (Inr (MDumpRequest h))"
  using assms
  by (simp add: Decode_def Encode_DumpRequest_def append14bit_def Let_def
      HasPrefix_def prefix_def index_def decodeDumpRequest_def dumpRequestSize_def
      dec14bit_append and7F)

lemma roundtrip_DataPacket:
  assumes "within_declared_widths (MDataPacket h)"
  shows "Decode (Encode (MDataPacket h) []) = Return (Inr (MDataPacket h))"
  using assms
  by (simp add: Decode_def Encode_DataPacket_def Let_def nth_append
      HasPrefix_def prefix_def index_def subslice_def decodeDataPacket_def dataPacketSize_def and7F)

lemma roundtrip_ControlPacket:
  assumes "within_declared_widths (MControlPacket h)" "is_control_type (MControlPacket h)"
  shows "Decode (Encode (MControlPacket h) []) = Return (Inr (MControlPacket h))"
  using assms
  by (auto simp add: Decode_def Encode_ControlPacket_def Let_def
      HasPrefix_def prefix_def index_def decodeControlPacket_def controlPacketSize_def and7F
      Ack_def Nak_def Cancel_def Wait_def)

text \<open>
  Claim C5, as stated: for every message of the four variants whose numeric fields lie
  within their declared widths, \<open>Decode (Encode m)\<close> succeeds and returns \<open>m\<close>. This
  fails for a control packet whose 7-bit type is none of \<open>Ack\<close>, \<open>Nak\<close>, \<open>Cancel\<close>,
  \<open>Wait\<close>: \<open>Decode\<close> dispatches on that byte as the sub-ID.
\<close>

theorem roundtrip_control_type_counterexample:
  "within_declared_widths (MControlPacket \<lparr> cType = 0x05, cChannel = 0, cPacketNumber = 0 \<rparr>) \<and>
   Decode (Encode (MControlPacket \<lparr> cType = 0x05, cChannel = 0, cPacketNumber = 0 \<rparr>) []) =
     Return (Inl (errInvalidMessageId 0x05)) \<and>
   Decode (Encode (MControlPacket \<lparr> cType = 0x01, cChannel = 0, cPacketNumber = 0 \<rparr>) []) =
     Return (Inl (errBadSize 6 ''DumpHeader''))"
  by (simp add: Decode_dispatch Encode_ControlPacket_def HasPrefix_def prefix_def
      decodeDumpHeader_def dumpHeaderSize_def)

text \<open>
  Claim C5, amended: for every message of the four variants whose numeric fields lie within
  their declared widths, and whose control type, for a control packet, is one of \<open>Ack\<close>,
  \<open>Nak\<close>, \<open>Cancel\<close>, \<open>Wait\<close>, \<open>Decode (Encode m)\<close> succeeds and returns \<open>m\<close>.
\<close>

theorem Decode_Encode_roundtrip:
  assumes "within_declared_widths m" "is_control_type m"
  shows "Decode (Encode m []) = Return (Inr m)"
proof (cases m)
  case (MDumpHeader h)
  with assms show ?thesis using roundtrip_DumpHeader [of h] by simp
next
  case (MDataPacket p)
  with assms show ?thesis using roundtrip_DataPacket [of p] by simp
next
  case (MDumpRequest r)
  with assms show ?thesis using roundtrip_DumpRequest [of r] by simp
next
  case (MControlPacket c)
  with assms show ?thesis using roundtrip_ControlPacket [of c] by simp
qed

theorem Decode_Encode_roundtrip_witness:
  "Decode (Encode (MDumpHeader \<lparr> hChannel = 1, hNumber = 2, hBitDepth = 16, hPeriod = 4,
      hLength = 5, hLoopStart = 6, hLoopEnd = 7, hLoopType = 8 \<rparr>) []) =
     Return (Inr (MDumpHeader \<lparr> hChannel = 1, hNumber = 2, hBitDepth = 16, hPeriod = 4,
      hLength = 5, hLoopStart = 6, hLoopEnd = 7, hLoopType = 8 \<rparr>)) \<and>
   Decode (Encode (MDumpRequest \<lparr> rChannel = 1, rNumber = 2 \<rparr>) []) =
     Return (Inr (MDumpRequest \<lparr> rChannel = 1, rNumber = 2 \<rparr>)) \<and>
   Decode (Encode (MDataPacket \<lparr> dChannel = 1, dPacketNumber = 2,
      dData = [3, 4, 5, 6] @ replicate 116 0, dChecksum = 7 \<rparr>) []) =
     Return (Inr (MDataPacket \<lparr> dChannel = 1, dPacketNumber = 2,
      dData = [3, 4, 5, 6] @ replicate 116 0, dChecksum = 7 \<rparr>)) \<and>
   Decode (Encode (MControlPacket \<lparr> cType = Ack, cChannel = 1, cPacketNumber = 8 \<rparr>) []) =
     Return (Inr (MControlPacket \<lparr> cType = Ack, cChannel = 1, cPacketNumber = 8 \<rparr>))"
  using
    Decode_Encode_roundtrip [of "MDumpHeader \<lparr> hChannel = 1, hNumber = 2, hBitDepth = 16,
      hPeriod = 4, hLength = 5, hLoopStart = 6, hLoopEnd = 7, hLoopType = 8 \<rparr>"]
    Decode_Encode_roundtrip [of "MDumpRequest \<lparr> rChannel = 1, rNumber = 2 \<rparr>"]
    Decode_Encode_roundtrip [of "MDataPacket \<lparr> dChannel = 1, dPacketNumber = 2,
      dData = [3, 4, 5, 6] @ replicate 116 0, dChecksum = 7 \<rparr>"]
    Decode_Encode_roundtrip [of "MControlPacket \<lparr> cType = Ack, cChannel = 1, cPacketNumber = 8 \<rparr>"]
  by (simp add: Ack_def)

lemma decodable_DataPacket_frame:
  "(\<exists>p. Decode bs = Return (Inr (MDataPacket p))) \<longleftrightarrow>
   (length bs = 127 \<and> HasPrefix bs prefix \<and> bs ! 3 = 0x02 \<and> bs ! 126 = 0xF7)"
proof (cases "length bs = 127")
  case True
  then have "bs \<noteq> []" by auto
  with True have "last bs = bs ! 126" by (simp add: last_conv_nth)
  with True show ?thesis
    by (auto simp add: Decode_dispatch decodeDataPacket_def dataPacketSize_def index_def subslice_def
        decodeDumpHeader_def dumpHeaderSize_def decodeDumpRequest_def dumpRequestSize_def
        decodeControlPacket_def controlPacketSize_def Let_def)
next
  case False
  then show ?thesis
    by (auto simp add: Decode_dispatch decodeDataPacket_def dataPacketSize_def index_def subslice_def
        decodeDumpHeader_def dumpHeaderSize_def decodeDumpRequest_def dumpRequestSize_def
        decodeControlPacket_def controlPacketSize_def Let_def split: if_splits)
qed

text \<open>
  Claim C7: for every correctly framed 127-byte data packet message, \<open>Decode\<close> succeeds
  whatever the value of the checksum byte (offset 125): the decoded packet carries that
  byte as its checksum, unverified, and replacing only that byte by any byte \<open>c\<close> never
  makes \<open>Decode\<close> fail; it changes nothing but the checksum field of the result.
\<close>

theorem Decode_DataPacket_any_checksum:
  assumes "length bs = 127" "HasPrefix bs prefix" "bs ! 3 = 0x02" "bs ! 126 = 0xF7"
  shows "\<exists>p. Decode bs = Return (Inr (MDataPacket p)) \<and> dChecksum p = bs ! 125 \<and>
    (\<forall>c. Decode (bs[125 := c]) = Return (Inr (MDataPacket (p \<lparr> dChecksum := c \<rparr>))))"
proof -
  let ?p = "\<lparr> dChannel = bs ! 2, dPacketNumber = bs ! 4,
      dData = take 120 (drop 5 bs), dChecksum = bs ! 125 \<rparr>"
  from assms have l: "last bs = 0xF7" by (cases bs rule: rev_cases) (simp_all add: nth_append)
  with assms have 1: "Decode bs = Return (Inr (MDataPacket ?p))"
    by (simp add: Decode_dispatch decodeDataPacket_def dataPacketSize_def index_def subslice_def Let_def)
  have 2: "Decode (bs[125 := c]) = Return (Inr (MDataPacket (?p \<lparr> dChecksum := c \<rparr>)))" for c
  proof -
    let ?bs = "bs[125 := c]"
    have "?bs \<noteq> []" using assms(1) by auto
    then have "last ?bs = ?bs ! (length ?bs - 1)" by (rule last_conv_nth)
    with assms have l': "last ?bs = 0xF7" by simp
    have "drop 5 ?bs = (drop 5 bs)[120 := c]" by (simp add: drop_update_swap)
    then have d: "take 120 (drop 5 ?bs) = take 120 (drop 5 bs)" by simp
    have "length ?bs = 127" "HasPrefix ?bs prefix" "?bs ! 3 = 0x02"
      using assms by (simp_all add: HasPrefix_def prefix_def)
    with assms l' d show ?thesis
      by (simp add: Decode_dispatch decodeDataPacket_def dataPacketSize_def index_def subslice_def
          Let_def)
  qed
  from 1 2 show ?thesis by (intro exI [of _ ?p]) simp
qed

theorem Decode_DataPacket_any_checksum_witness:
  "Decode ([0xF0, 0x7E, 0x01, 0x02, 0x00] @ replicate 120 0 @ [0x7D, 0xF7]) =
     Return (Inr (MDataPacket \<lparr> dChannel = 1, dPacketNumber = 0, dData = replicate 120 0,
       dChecksum = 0x7D \<rparr>)) \<and>
   Decode (([0xF0, 0x7E, 0x01, 0x02, 0x00] @ replicate 120 0 @ [0x7D, 0xF7])[125 := 0x55]) =
     Return (Inr (MDataPacket \<lparr> dChannel = 1, dPacketNumber = 0, dData = replicate 120 0,
       dChecksum = 0x55 \<rparr>))"
proof -
  let ?bs = "[0xF0, 0x7E, 0x01, 0x02, 0x00] @ replicate 120 0 @ [0x7D, 0xF7 :: byte]"
  have d: "Decode ?bs =
     Return (Inr (MDataPacket \<lparr> dChannel = 1, dPacketNumber = 0, dData = replicate 120 0,
       dChecksum = 0x7D \<rparr>))"
    by (simp add: Decode_dispatch HasPrefix_def prefix_def decodeDataPacket_def dataPacketSize_def
        index_def subslice_def Let_def nth_append)
  have "length ?bs = 127" "HasPrefix ?bs prefix" "?bs ! 3 = 0x02" "?bs ! 126 = 0xF7"
    by (simp_all add: HasPrefix_def prefix_def nth_append)
  from Decode_DataPacket_any_checksum [OF this] d show ?thesis by auto
qed

section \<open>The checksum\<close>

lemma fold_xor_shift: "fold (XOR) xs a = a XOR fold (XOR) xs (0::byte)"
proof (induction xs arbitrary: a)
  case Nil
  show ?case by simp
next
  case (Cons x xs)
  have "fold (XOR) (x # xs) a = (x XOR a) XOR fold (XOR) xs 0"
    using Cons.IH [of "x XOR a"] by simp
  also have "\<dots> = a XOR (x XOR fold (XOR) xs 0)"
    by (simp add: ac_simps)
  also have "x XOR fold (XOR) xs 0 = fold (XOR) (x # xs) 0"
    using Cons.IH [of x] by simp
  finally show ?case .
qed

lemma xor_fold_snoc: "xor_fold (xs @ [x]) = xor_fold xs XOR x"
  unfolding xor_fold_def using fold_xor_shift [of "[x]" "fold (XOR) xs 0"]
  by (simp add: ac_simps)

lemma xor_fold_Cons: "xor_fold (x # xs) = x XOR xor_fold xs"
  unfolding xor_fold_def using fold_xor_shift [of xs x] by simp

lemma fold_index_xor:
  "n \<le> length buf \<Longrightarrow> fold (\<lambda>i c. c XOR buf ! i) [0..<n] c = c XOR xor_fold (take n buf)"
proof (induction n)
  case 0
  show ?case by (simp add: xor_fold_def)
next
  case (Suc n)
  then have "take (Suc n) buf = take n buf @ [buf ! n]"
    by (simp add: take_Suc_conv_app_nth)
  with Suc show ?case
    by (simp add: xor_fold_snoc xor.assoc)
qed

lemma length_Encode_DataPacket: "length (Encode_DataPacket p b) = length b + 7 + length (dData p)"
  by (simp add: Encode_DataPacket_def)

lemma ComputeChecksum_eq:
  assumes "wf_DataPacket p"
  shows "ComputeChecksum p = xor_fold (take 124 (drop 1 (Encode_DataPacket p []))) AND 0x7F"
proof -
  let ?buf = "Encode_DataPacket p []"
  have len: "length ?buf = 127"
    using assms by (simp add: length_Encode_DataPacket wf_DataPacket_def)
  then have n: "length (drop 1 (take (dataPacketSize - 1) ?buf)) = 125"
    by (simp add: dataPacketSize_def)
  have "take 125 ?buf = ?buf ! 0 # take 124 (drop 1 ?buf)"
    using len by (cases ?buf) simp_all
  then have "xor_fold (take 125 ?buf) = ?buf ! 0 XOR xor_fold (take 124 (drop 1 ?buf))"
    by (simp add: xor_fold_Cons)
  moreover have "fold (\<lambda>i c. c XOR ?buf ! i) [0..<125] (?buf ! 0) = ?buf ! 0 XOR xor_fold (take 125 ?buf)"
    using len by (simp add: fold_index_xor)
  ultimately show ?thesis
    unfolding ComputeChecksum_def Let_def n
    by (simp add: xor.assoc [symmetric])
qed

lemma xor_fold_Nil: "xor_fold [] = 0"
  by (simp add: xor_fold_def)

lemma xor_fold_append: "xor_fold (xs @ ys) = xor_fold xs XOR xor_fold ys"
  by (induction xs) (simp_all add: xor_fold_Nil xor_fold_Cons xor.assoc)

lemma xor_fold_zeros: "xor_fold (replicate n 0) = 0"
  by (induction n) (simp_all add: xor_fold_Nil xor_fold_Cons)

lemma Encode_DataPacket_bytes:
  "Encode_DataPacket p [] =
     [0xF0, 0x7E, dChannel p AND 0x7F, 0x02, dPacketNumber p AND 0x7F] @ dData p @
     [dChecksum p AND 0x7F, 0xF7]"
  by (simp add: Encode_DataPacket_def)

text \<open>
  Claim C1, as stated: \<open>ComputeChecksum\<close> is the XOR of every encoded byte from the
  leading \<open>0xF0\<close> through the last payload byte, masked to 7 bits. The code starts
  from \<open>buf[0]\<close> and folds \<open>buf[0]\<close> in once more, so the leading \<open>0xF0\<close> cancels:
  for the all-zero packet the checksum is \<open>0x7E XOR 0x02 = 0x7C\<close>, while the fold
  from \<open>0xF0\<close> gives \<open>0x0C\<close>.
\<close>

theorem ComputeChecksum_leading_byte_counterexample:
  "ComputeChecksum \<lparr> dChannel = 0, dPacketNumber = 0, dData = replicate 120 0, dChecksum = 0 \<rparr>
     = 0x7C \<and>
   xor_fold (take 125 (Encode_DataPacket
     \<lparr> dChannel = 0, dPacketNumber = 0, dData = replicate 120 0, dChecksum = 0 \<rparr> [])) AND 0x7F
     = 0x0C"
  by (simp add: ComputeChecksum_eq wf_DataPacket_def Encode_DataPacket_bytes xor_fold_Cons
      xor_fold_append xor_fold_zeros xor_fold_Nil)

text \<open>
  Claim C1, amended: for every data packet, \<open>ComputeChecksum\<close> is the XOR of the encoded
  bytes from the \<open>0x7E\<close> byte at offset 1 through the last (120th) payload byte at
  offset 124, masked to 7 bits: it covers \<open>0x7E\<close>, the channel, the sub-ID, the packet
  number and the payload, and leaves out the leading \<open>0xF0\<close>, the checksum byte and
  the trailing \<open>0xF7\<close>.
\<close>

theorem ComputeChecksum_xor_fold:
  assumes "wf_DataPacket p"
  shows "ComputeChecksum p = xor_fold (take 124 (drop 1 (Encode_DataPacket p []))) AND 0x7F \<and>
    take 124 (drop 1 (Encode_DataPacket p [])) =
      [0x7E, dChannel p AND 0x7F, 0x02, dPacketNumber p AND 0x7F] @ dData p"
  using assms by (simp add: ComputeChecksum_eq Encode_DataPacket_bytes wf_DataPacket_def)

theorem ComputeChecksum_xor_fold_witness:
  "ComputeChecksum \<lparr> dChannel = 1, dPacketNumber = 2, dData = [3, 4, 5, 6] @ replicate 116 0,
     dChecksum = 7 \<rparr> = 0x7B"
  using ComputeChecksum_xor_fold [of "\<lparr> dChannel = 1, dPacketNumber = 2,
     dData = [3, 4, 5, 6] @ replicate 116 0, dChecksum = 7 \<rparr>"]
  by (simp add: wf_DataPacket_def xor_fold_Cons xor_fold_append xor_fold_zeros xor_fold_Nil)

section \<open>Sample packing\<close>

lemma bit_enc_hi: "bit (enc_hi sh u) i \<longleftrightarrow> i < 7 \<and> bit u (sh + i)"
  by (auto simp add: enc_hi_def m7 bit_simps)

lemma bit_enc_lo: "bit (enc_lo sh u) i \<longleftrightarrow> i < 7 \<and> sh \<le> i \<and> bit u (i - sh)"
  by (auto simp add: enc_lo_def m7 bit_simps)

lemma bit_up: "bit (push_bit sh (ucast (b AND 0x7F)) :: uint) i \<longleftrightarrow> sh \<le> i \<and> i < sh + 7 \<and> i < 64 \<and> bit b (i - sh)"
  for b :: byte
  by (auto simp add: m7 bit_simps)

lemma bit_down: "bit (drop_bit sh (ucast (b AND 0x7F)) :: uint) i \<longleftrightarrow> sh + i < 7 \<and> bit b (sh + i)"
  for b :: byte
  by (auto simp add: m7 bit_simps)

lemma dec2_enc2:
  fixes u :: uint
  assumes "H + L = 7" "u < 2 ^ (H + 7)"
  shows "push_bit H (ucast (enc_hi H u AND 0x7F)) OR drop_bit L (ucast (enc_lo L u AND 0x7F)) = u"
proof -
  have hi: "\<And>i. bit u i \<Longrightarrow> i < H + 7" using assms(2) by (rule less_pow_bit)
  have "bit (push_bit H (ucast (enc_hi H u AND 0x7F)) OR drop_bit L (ucast (enc_lo L u AND 0x7F)) :: uint) i = bit u i" for i
    using assms(1) hi [of i] bit_imp_le_length [of u i]
    by (auto simp add: bit_or_iff bit_up bit_down bit_enc_hi bit_enc_lo)
  then show ?thesis by (simp add: bit_eq_iff)
qed

lemma dec3_enc3:
  fixes u :: uint
  assumes "M + L = 7" "u < 2 ^ (M + 14)"
  shows "push_bit (M + 7) (ucast (enc_hi (M + 7) u AND 0x7F)) OR push_bit M (ucast (enc_hi M u AND 0x7F))
     OR drop_bit L (ucast (enc_lo L u AND 0x7F)) = u"
proof -
  have hi: "\<And>i. bit u i \<Longrightarrow> i < M + 14" using assms(2) by (rule less_pow_bit)
  have "bit (push_bit (M + 7) (ucast (enc_hi (M + 7) u AND 0x7F)) OR push_bit M (ucast (enc_hi M u AND 0x7F))
     OR drop_bit L (ucast (enc_lo L u AND 0x7F)) :: uint) i = bit u i" for i
  proof -
    consider "i < M" | "M \<le> i \<and> i < M + 7" | "M + 7 \<le> i" by linarith
    then show ?thesis
      using assms(1) hi [of i] bit_imp_le_length [of u i]
      by cases (auto simp add: bit_or_iff bit_up bit_down bit_enc_hi bit_enc_lo)
  qed
  then show ?thesis by (simp add: bit_eq_iff)
qed

lemma dec4_enc4:
  fixes u :: uint
  assumes "M + L = 7" "u < 2 ^ (M + 21)"
  shows "push_bit (M + 14) (ucast (enc_hi (M + 14) u AND 0x7F))
     OR push_bit (M + 7) (ucast (enc_hi (M + 7) u AND 0x7F))
     OR push_bit M (ucast (enc_hi M u AND 0x7F))
     OR drop_bit L (ucast (enc_lo L u AND 0x7F)) = u"
proof -
  have hi: "\<And>i. bit u i \<Longrightarrow> i < M + 21" using assms(2) by (rule less_pow_bit)
  have "bit (push_bit (M + 14) (ucast (enc_hi (M + 14) u AND 0x7F))
     OR push_bit (M + 7) (ucast (enc_hi (M + 7) u AND 0x7F))
     OR push_bit M (ucast (enc_hi M u AND 0x7F))
     OR drop_bit L (ucast (enc_lo L u AND 0x7F)) :: uint) i = bit u i" for i
  proof -
    consider "i < M" | "M \<le> i \<and> i < M + 7" | "M + 7 \<le> i \<and> i < M + 14" | "M + 14 \<le> i"
      by linarith
    then show ?thesis
      using assms(1) hi [of i] bit_imp_le_length [of u i]
      by cases (auto simp add: bit_or_iff bit_up bit_down bit_enc_hi bit_enc_lo)
  qed
  then show ?thesis by (simp add: bit_eq_iff)
qed

lemma sample_offset_bound:
  fixes s :: goint
  assumes "0 < d" "d \<le> 63" "- (2 ^ (d - 1)) \<le> sint s" "sint s < 2 ^ (d - 1)"
  shows "s + push_bit (d - 1) 1 < 2 ^ d"
proof -
  define x where "x = sint s + 2 ^ (d - 1)"
  have eq: "s + push_bit (d - 1) 1 = word_of_int x"
    by (simp add: push_bit_eq_mult x_def)
  have lo: "0 \<le> x" using assms by (simp add: x_def)
  have "(2::int) ^ d = 2 ^ (d - 1) + 2 ^ (d - 1)"
    using assms(1) by (cases d) simp_all
  then have up: "x < 2 ^ d" using assms by (simp add: x_def)
  have "(2::int) ^ d \<le> 2 ^ 64" using assms(2) by (intro power_increasing) simp_all
  with up have "x < 2 ^ 64" by linarith
  with lo have "uint (word_of_int x :: goint) = x"
    by (simp add: uint_word_of_int take_bit_int_eq_self)
  moreover have "uint (2 ^ d :: goint) = 2 ^ d"
  proof -
    define y :: int where "y = 2 ^ d"
    have "0 \<le> y" "y < 2 ^ 64"
      using assms(2) power_strict_increasing [of d 64 "2::int"] by (simp_all add: y_def)
    then have "uint (word_of_int y :: goint) = y"
      by (simp add: uint_word_of_int take_bit_int_eq_self)
    then show ?thesis by (simp add: y_def)
  qed
  ultimately show ?thesis
    using up unfolding eq word_less_def by simp
qed

lemma zero_remainder_eq:
  "zero_remainder di data = take di data @ replicate (length data - di) 0"
proof (induction di data rule: zero_remainder.induct)
  case (1 di data)
  show ?case
  proof (cases "di < length data")
    case True
    then have "length data - di = Suc (length data - (di + 1))" by simp
    with True "1" show ?thesis
      by (simp add: take_Suc_conv_app_nth zero_remainder.simps [of di data]
          replicate_Suc [symmetric] del: replicate_Suc)
  next
    case False
    then show ?thesis by (simp add: zero_remainder.simps [of di data])
  qed
qed

lemma write_step2:
  assumes "Suc di < length data"
  shows "take (Suc (Suc di)) (data[di := a, Suc di := b]) = take di data @ [a, b]"
  using assms by (simp add: take_Suc_conv_app_nth nth_list_update)

lemma write2_loop_eq:
  assumes "di + 2 * m = length data"
  shows "write2_loop H L z xs di data =
     (drop m xs, di + 2 * min m (length xs),
      take di data @ concat (map (enc2 H L z) (take m xs)) @ drop (di + 2 * min m (length xs)) data)"
  using assms
proof (induction xs arbitrary: di data m)
  case Nil
  then show ?case by simp
next
  case (Cons x xs)
  show ?case
  proof (cases m)
    case 0
    with Cons.prems show ?thesis by simp
  next
    case (Suc m')
    with Cons.prems have lt: "di + 1 < length data" by simp
    let ?d = "data[di := enc_hi H (x + z), di + 1 := enc_lo L (x + z)]"
    have "(di + 2) + 2 * m' = length ?d" using Cons.prems Suc by simp
    from Cons.IH [OF this] lt Suc show ?thesis
      by (simp add: Let_def enc_hi_def [symmetric] enc_lo_def [symmetric] write_step2 enc2_def)
  qed
qed

lemma write_step3:
  assumes "Suc (Suc di) < length data"
  shows "take (Suc (Suc (Suc di))) (data[di := a, Suc di := b, Suc (Suc di) := c]) =
    take di data @ [a, b, c]"
  using assms by (simp add: take_Suc_conv_app_nth nth_list_update)

lemma write_step4:
  assumes "Suc (Suc (Suc di)) < length data"
  shows "take (Suc (Suc (Suc (Suc di))))
      (data[di := a, Suc di := b, Suc (Suc di) := c, Suc (Suc (Suc di)) := d]) =
    take di data @ [a, b, c, d]"
  using assms by (simp add: take_Suc_conv_app_nth nth_list_update)

lemma write3_loop_eq:
  assumes "di + 3 * m = length data"
  shows "write3_loop H M L z xs di data =
     (drop m xs, di + 3 * min m (length xs),
      take di data @ concat (map (enc3 H M L z) (take m xs)) @ drop (di + 3 * min m (length xs)) data)"
  using assms
proof (induction xs arbitrary: di data m)
  case Nil
  then show ?case by simp
next
  case (Cons x xs)
  show ?case
  proof (cases m)
    case 0
    with Cons.prems show ?thesis by simp
  next
    case (Suc m')
    with Cons.prems have lt: "Suc (Suc di) < length data" by simp
    let ?d = "data[di := enc_hi H (x + z), di + 1 := enc_hi M (x + z), di + 2 := enc_lo L (x + z)]"
    have "(di + 3) + 3 * m' = length ?d" using Cons.prems Suc by simp
    from Cons.IH [OF this] lt Suc show ?thesis
      by (simp add: Let_def enc_hi_def [symmetric] enc_lo_def [symmetric] write_step3 enc3_def
          numeral_3_eq_3)
  qed
qed

lemma write4_loop_eq:
  assumes "di + 4 * m = length data"
  shows "write4_loop H M1 M2 L z xs di data =
     (drop m xs, di + 4 * min m (length xs),
      take di data @ concat (map (enc4 H M1 M2 L z) (take m xs)) @
      drop (di + 4 * min m (length xs)) data)"
  using assms
proof (induction xs arbitrary: di data m)
  case Nil
  then show ?case by simp
next
  case (Cons x xs)
  show ?case
  proof (cases m)
    case 0
    with Cons.prems show ?thesis by simp
  next
    case (Suc m')
    with Cons.prems have lt: "Suc (Suc (Suc di)) < length data" by simp
    let ?d = "data[di := enc_hi H (x + z), di + 1 := enc_hi M1 (x + z),
      di + 2 := enc_hi M2 (x + z), di + 3 := enc_lo L (x + z)]"
    have "(di + 4) + 4 * m' = length ?d" using Cons.prems Suc by simp
    from Cons.IH [OF this] lt Suc show ?thesis
      by (simp add: Let_def enc_hi_def [symmetric] enc_lo_def [symmetric] write_step4 enc4_def
          numeral_3_eq_3 eval_nat_numeral)
  qed
qed

lemma read2_loop_eq:
  assumes "length pre = i" "length rest = 2 * m" "bi + m \<le> length buf"
  shows "read2_loop H L z (pre @ rest) i bi buf =
     take bi buf @ dec2_list H L z rest @ drop (bi + m) buf"
  using assms
proof (induction m arbitrary: pre rest i bi buf)
  case 0
  then show ?case by (simp add: read2_loop.simps [of H L z pre i bi buf])
next
  case (Suc m)
  from Suc.prems(2) obtain a b rest' where rest: "rest = a # b # rest'"
    by (cases rest; cases "tl rest") auto
  let ?v = "dec2 H L z a b"
  have "read2_loop H L z ((pre @ [a, b]) @ rest') (i + 2) (bi + 1) (buf[bi := ?v]) =
      take (bi + 1) (buf[bi := ?v]) @ dec2_list H L z rest' @ drop (bi + 1 + m) (buf[bi := ?v])"
    using Suc.prems rest by (intro Suc.IH) simp_all
  moreover have "take (bi + 1) (buf[bi := ?v]) = take bi buf @ [?v]"
    using Suc.prems(3) by (simp add: take_Suc_conv_app_nth)
  ultimately show ?case
    using Suc.prems rest
    by (simp add: Let_def nth_append dec2_def read2_loop.simps [of H L z "pre @ a # b # rest'" i bi buf])
qed


lemma read3_loop_eq:
  assumes "length pre = i" "length rest = 3 * m" "bi + m \<le> length buf"
  shows "read3_loop H M L z (pre @ rest) i bi buf =
     take bi buf @ dec3_list H M L z rest @ drop (bi + m) buf"
  using assms
proof (induction m arbitrary: pre rest i bi buf)
  case 0
  then show ?case by (simp add: read3_loop.simps [of H M L z pre i bi buf])
next
  case (Suc m)
  from Suc.prems(2) obtain a b c rest' where rest: "rest = a # b # c # rest'"
    by (cases rest; cases "tl rest"; cases "tl (tl rest)") auto
  let ?v = "dec3 H M L z a b c"
  have "read3_loop H M L z ((pre @ [a, b, c]) @ rest') (i + 3) (bi + 1) (buf[bi := ?v]) =
      take (bi + 1) (buf[bi := ?v]) @ dec3_list H M L z rest' @ drop (bi + 1 + m) (buf[bi := ?v])"
    using Suc.prems rest by (intro Suc.IH) simp_all
  moreover have "take (bi + 1) (buf[bi := ?v]) = take bi buf @ [?v]"
    using Suc.prems(3) by (simp add: take_Suc_conv_app_nth)
  ultimately show ?case
    using Suc.prems rest
    by (simp add: Let_def nth_append dec3_def read3_loop.simps [of H M L z "pre @ a # b # c # rest'" i bi buf])
qed

lemma read4_loop_eq:
  assumes "length pre = i" "length rest = 4 * m" "bi + m \<le> length buf"
  shows "read4_loop H M1 M2 L z (pre @ rest) i bi buf =
     take bi buf @ dec4_list H M1 M2 L z rest @ drop (bi + m) buf"
  using assms
proof (induction m arbitrary: pre rest i bi buf)
  case 0
  then show ?case by (simp add: read4_loop.simps [of H M1 M2 L z pre i bi buf])
next
  case (Suc m)
  from Suc.prems(2) obtain a b c d rest' where rest: "rest = a # b # c # d # rest'"
    by (cases rest; cases "tl rest"; cases "tl (tl rest)"; cases "tl (tl (tl rest))") auto
  let ?v = "dec4 H M1 M2 L z a b c d"
  have "read4_loop H M1 M2 L z ((pre @ [a, b, c, d]) @ rest') (i + 4) (bi + 1) (buf[bi := ?v]) =
      take (bi + 1) (buf[bi := ?v]) @ dec4_list H M1 M2 L z rest' @ drop (bi + 1 + m) (buf[bi := ?v])"
    using Suc.prems rest by (intro Suc.IH) simp_all
  moreover have "take (bi + 1) (buf[bi := ?v]) = take bi buf @ [?v]"
    using Suc.prems(3) by (simp add: take_Suc_conv_app_nth)
  ultimately show ?case
    using Suc.prems rest
    by (simp add: Let_def nth_append dec4_def read4_loop.simps [of H M1 M2 L z "pre @ a # b # c # d # rest'" i bi buf])
qed

lemma dec2_list_concat:
  "dec2_list H L z (concat (map (enc2 H' L' z') xs) @ ys) =
     map (\<lambda>x. dec2 H L z (enc_hi H' (x + z')) (enc_lo L' (x + z'))) xs @ dec2_list H L z ys"
  by (induction xs) (simp_all add: enc2_def)

lemma dec3_list_concat:
  "dec3_list H M L z (concat (map (enc3 H' M' L' z') xs) @ ys) =
     map (\<lambda>x. dec3 H M L z (enc_hi H' (x + z')) (enc_hi M' (x + z')) (enc_lo L' (x + z'))) xs @
     dec3_list H M L z ys"
  by (induction xs) (simp_all add: enc3_def)

lemma dec4_list_concat:
  "dec4_list H M1 M2 L z (concat (map (enc4 H' M1' M2' L' z') xs) @ ys) =
     map (\<lambda>x. dec4 H M1 M2 L z (enc_hi H' (x + z')) (enc_hi M1' (x + z')) (enc_hi M2' (x + z'))
       (enc_lo L' (x + z'))) xs @ dec4_list H M1 M2 L z ys"
  by (induction xs) (simp_all add: enc4_def)

lemma length_dec2_list: "length (dec2_list H L z bs) = length bs div 2"
  by (induction H L z bs rule: dec2_list.induct) simp_all

lemma length_dec3_list: "length (dec3_list H M L z bs) = length bs div 3"
  by (induction H M L z bs rule: dec3_list.induct) simp_all

lemma length_dec4_list: "length (dec4_list H M1 M2 L z bs) = length bs div 4"
  by (induction H M1 M2 L z bs rule: dec4_list.induct) simp_all

lemma length_concat_enc2: "length (concat (map (enc2 H L z) xs)) = 2 * length xs"
  by (induction xs) (simp_all add: enc2_def)

lemma length_concat_enc3: "length (concat (map (enc3 H M L z) xs)) = 3 * length xs"
  by (induction xs) (simp_all add: enc3_def)

lemma length_concat_enc4: "length (concat (map (enc4 H M1 M2 L z) xs)) = 4 * length xs"
  by (induction xs) (simp_all add: enc4_def)

text \<open>The packet written by write2, and what read2 reads from any 120 byte packet.\<close>

lemma write2_eq:
  assumes "length (dData p) = 120"
  shows "write2 p xs d =
    (p \<lparr> dData := concat (map (enc2 (nat (d - 7)) (nat (14 - d)) (push_bit (nat (d - 1)) 1)) (take 60 xs))
           @ replicate (120 - 2 * min 60 (length xs)) 0 \<rparr>, drop 60 xs)"
proof -
  have "0 + 2 * 60 = length (dData p)" using assms by simp
  note write2_loop_eq [OF this]
  then show ?thesis
    using assms
    by (simp add: write2_def zero_remainder_eq length_concat_enc2 min_def)
qed

lemma read2_eq:
  assumes "length (dData p) = 120"
  shows "read2 p out d =
     out @ dec2_list (nat (d - 7)) (nat (14 - d)) (push_bit (nat (d - 1)) 1) (dData p)"
proof -
  have "read2_loop (nat (d - 7)) (nat (14 - d)) (push_bit (nat (d - 1)) 1) ([] @ dData p) 0 0
      (replicate 60 0) =
     take 0 (replicate 60 0) @ dec2_list (nat (d - 7)) (nat (14 - d)) (push_bit (nat (d - 1)) 1) (dData p)
      @ drop (0 + 60) (replicate 60 0)"
    using assms by (intro read2_loop_eq) simp_all
  then show ?thesis using assms by (simp add: read2_def)
qed


lemma write3_eq:
  assumes "length (dData p) = 120"
  shows "write3 p xs d =
    (p \<lparr> dData := concat (map (enc3 (nat (d - 7)) (nat (d - 14)) (nat (21 - d))
              (push_bit (nat (d - 1)) 1)) (take 40 xs))
           @ replicate (120 - 3 * min 40 (length xs)) 0 \<rparr>, drop 40 xs)"
proof -
  have "0 + 3 * 40 = length (dData p)" using assms by simp
  note write3_loop_eq [OF this]
  then show ?thesis
    using assms
    by (simp add: write3_def zero_remainder_eq length_concat_enc3 min_def)
qed

lemma write4_eq:
  assumes "length (dData p) = 120"
  shows "write4 p xs d =
    (p \<lparr> dData := concat (map (enc4 (nat (d - 7)) (nat (d - 14)) (nat (d - 21)) (nat (28 - d))
              (push_bit (nat (d - 1)) 1)) (take 30 xs))
           @ replicate (120 - 4 * min 30 (length xs)) 0 \<rparr>, drop 30 xs)"
proof -
  have "0 + 4 * 30 = length (dData p)" using assms by simp
  note write4_loop_eq [OF this]
  then show ?thesis
    using assms
    by (simp add: write4_def zero_remainder_eq length_concat_enc4 min_def)
qed

lemma read3_eq:
  assumes "length (dData p) = 120"
  shows "read3 p out d =
     out @ dec3_list (nat (d - 7)) (nat (d - 14)) (nat (21 - d)) (push_bit (nat (d - 1)) 1) (dData p)"
proof -
  have "read3_loop (nat (d - 7)) (nat (d - 14)) (nat (21 - d)) (push_bit (nat (d - 1)) 1)
      ([] @ dData p) 0 0 (replicate 40 0) =
     take 0 (replicate 40 0) @
     dec3_list (nat (d - 7)) (nat (d - 14)) (nat (21 - d)) (push_bit (nat (d - 1)) 1) (dData p)
      @ drop (0 + 40) (replicate 40 0)"
    using assms by (intro read3_loop_eq) simp_all
  then show ?thesis using assms by (simp add: read3_def)
qed

lemma read4_eq:
  assumes "length (dData p) = 120"
  shows "read4 p out d =
     out @ dec4_list (nat (d - 7)) (nat (d - 14)) (nat (d - 21)) (nat (28 - d))
       (push_bit (nat (d - 1)) 1) (dData p)"
proof -
  have "read4_loop (nat (d - 7)) (nat (d - 14)) (nat (d - 21)) (nat (28 - d))
      (push_bit (nat (d - 1)) 1) ([] @ dData p) 0 0 (replicate 30 0) =
     take 0 (replicate 30 0) @
     dec4_list (nat (d - 7)) (nat (d - 14)) (nat (d - 21)) (nat (28 - d))
       (push_bit (nat (d - 1)) 1) (dData p)
      @ drop (0 + 30) (replicate 30 0)"
    using assms by (intro read4_loop_eq) simp_all
  then show ?thesis using assms by (simp add: read4_def)
qed

lemma in_range_offset:
  assumes "8 \<le> d" "d \<le> 28" "in_sample_range d x"
  shows "x + push_bit (nat (d - 1)) 1 < 2 ^ nat d"
proof -
  have "nat (d - 1) = nat d - 1" using assms by simp
  with sample_offset_bound [of "nat d" x] assms show ?thesis
    by (simp add: in_sample_range_def)
qed

lemma dec2_sample:
  assumes "8 \<le> d" "d \<le> 14" "in_sample_range d x"
  shows "dec2 (nat (d - 7)) (nat (14 - d)) (push_bit (nat (d - 1)) 1)
     (enc_hi (nat (d - 7)) (x + push_bit (nat (d - 1)) 1))
     (enc_lo (nat (14 - d)) (x + push_bit (nat (d - 1)) 1)) = x"
proof -
  have "nat (d - 7) + 7 = nat d" "nat (d - 7) + nat (14 - d) = 7" using assms by simp_all
  with in_range_offset [of d x] assms
    dec2_enc2 [of "nat (d - 7)" "nat (14 - d)" "x + push_bit (nat (d - 1)) 1"]
  show ?thesis by (simp add: dec2_def)
qed

lemma dec3_sample:
  assumes "15 \<le> d" "d \<le> 21" "in_sample_range d x"
  shows "dec3 (nat (d - 7)) (nat (d - 14)) (nat (21 - d)) (push_bit (nat (d - 1)) 1)
     (enc_hi (nat (d - 7)) (x + push_bit (nat (d - 1)) 1))
     (enc_hi (nat (d - 14)) (x + push_bit (nat (d - 1)) 1))
     (enc_lo (nat (21 - d)) (x + push_bit (nat (d - 1)) 1)) = x"
proof -
  have "nat (d - 14) + 14 = nat d" "nat (d - 14) + nat (21 - d) = 7"
    "nat (d - 7) = nat (d - 14) + 7" using assms by simp_all
  with in_range_offset [of d x] assms
    dec3_enc3 [of "nat (d - 14)" "nat (21 - d)" "x + push_bit (nat (d - 1)) 1"]
  show ?thesis by (simp add: dec3_def or.assoc)
qed

lemma dec4_sample:
  assumes "22 \<le> d" "d \<le> 28" "in_sample_range d x"
  shows "dec4 (nat (d - 7)) (nat (d - 14)) (nat (d - 21)) (nat (28 - d)) (push_bit (nat (d - 1)) 1)
     (enc_hi (nat (d - 7)) (x + push_bit (nat (d - 1)) 1))
     (enc_hi (nat (d - 14)) (x + push_bit (nat (d - 1)) 1))
     (enc_hi (nat (d - 21)) (x + push_bit (nat (d - 1)) 1))
     (enc_lo (nat (28 - d)) (x + push_bit (nat (d - 1)) 1)) = x"
proof -
  have "nat (d - 21) + 21 = nat d" "nat (d - 21) + nat (28 - d) = 7"
    "nat (d - 7) = nat (d - 21) + 14" "nat (d - 14) = nat (d - 21) + 7" using assms by simp_all
  with in_range_offset [of d x] assms
    dec4_enc4 [of "nat (d - 21)" "nat (28 - d)" "x + push_bit (nat (d - 1)) 1"]
  show ?thesis by (simp add: dec4_def or.assoc)
qed

lemma map_in_range_id:
  assumes "\<And>x. in_sample_range d x \<Longrightarrow> f x = x" "list_all (in_sample_range d) xs"
  shows "map f (take k xs) = take k xs"
proof -
  have "\<And>x. x \<in> set (take k xs) \<Longrightarrow> f x = x"
    using assms by (auto simp add: list_all_iff dest: in_set_takeD)
  then show ?thesis by (simp add: map_idI)
qed

lemma packet_roundtrip2:
  assumes d: "8 \<le> d" "d \<le> 28" and c: "d \<le> 14" and p: "length (dData p) = 120"
    and xs: "list_all (in_sample_range d) xs"
  shows "\<exists>D pad. SetSamples p xs d = Return (p \<lparr> dData := D \<rparr>, drop (capacity d) xs)
     \<and> length D = 120
     \<and> drop (group_size d * min (capacity d) (length xs)) D =
         replicate (120 - group_size d * min (capacity d) (length xs)) 0
     \<and> GetSamples (p \<lparr> dData := D \<rparr>) out d = Return (out @ take (capacity d) xs @ pad)
     \<and> length pad = capacity d - min (capacity d) (length xs)"
proof -
  let ?z = "push_bit (nat (d - 1)) 1 :: uint"
  let ?k = "min (capacity d) (length xs)"
  show ?thesis
  proof -
    let ?H = "nat (d - 7)" and ?L = "nat (14 - d)"
    let ?zs = "replicate (120 - 2 * min 60 (length xs)) (0::byte)"
    let ?D = "concat (map (enc2 ?H ?L ?z) (take 60 xs)) @ ?zs"
    let ?pad = "dec2_list ?H ?L ?z ?zs"
    have len: "length ?D = 120" by (simp add: length_concat_enc2)
    have set: "SetSamples p xs d = Return (p \<lparr> dData := ?D \<rparr>, drop 60 xs)"
      using d c p by (simp add: SetSamples_def write2_eq)
    have "map (\<lambda>x. dec2 ?H ?L ?z (enc_hi ?H (x + ?z)) (enc_lo ?L (x + ?z))) (take 60 xs) = take 60 xs"
      using xs d c by (intro map_in_range_id [where d = d]) (simp_all add: dec2_sample [unfolded push_bit_of_1])
    then have get: "GetSamples (p \<lparr> dData := ?D \<rparr>) out d = Return (out @ take 60 xs @ ?pad)"
      using d c len by (simp add: GetSamples_def read2_eq dec2_list_concat)
    have dr: "drop (2 * min 60 (length xs)) ?D = ?zs" by (simp add: length_concat_enc2)
    have lp: "length ?pad = 60 - min 60 (length xs)"
      by (simp add: length_dec2_list)
    have cap: "capacity d = 60" "group_size d = 2"
      using c by (simp_all add: capacity_def group_size_def)
    show ?thesis
      unfolding cap by (intro exI [of _ ?D] exI [of _ ?pad] conjI set len get dr lp)
  qed
qed

lemma packet_roundtrip3:
  assumes d: "8 \<le> d" "d \<le> 28" and c: "15 \<le> d \<and> d \<le> 21" and p: "length (dData p) = 120"
    and xs: "list_all (in_sample_range d) xs"
  shows "\<exists>D pad. SetSamples p xs d = Return (p \<lparr> dData := D \<rparr>, drop (capacity d) xs)
     \<and> length D = 120
     \<and> drop (group_size d * min (capacity d) (length xs)) D =
         replicate (120 - group_size d * min (capacity d) (length xs)) 0
     \<and> GetSamples (p \<lparr> dData := D \<rparr>) out d = Return (out @ take (capacity d) xs @ pad)
     \<and> length pad = capacity d - min (capacity d) (length xs)"
proof -
  let ?z = "push_bit (nat (d - 1)) 1 :: uint"
  let ?k = "min (capacity d) (length xs)"
  show ?thesis
  proof -
    let ?H = "nat (d - 7)" and ?M = "nat (d - 14)" and ?L = "nat (21 - d)"
    let ?zs = "replicate (120 - 3 * min 40 (length xs)) (0::byte)"
    let ?D = "concat (map (enc3 ?H ?M ?L ?z) (take 40 xs)) @ ?zs"
    let ?pad = "dec3_list ?H ?M ?L ?z ?zs"
    have len: "length ?D = 120" by (simp add: length_concat_enc3)
    have set: "SetSamples p xs d = Return (p \<lparr> dData := ?D \<rparr>, drop 40 xs)"
      using d c p by (simp add: SetSamples_def write3_eq)
    have "map (\<lambda>x. dec3 ?H ?M ?L ?z (enc_hi ?H (x + ?z)) (enc_hi ?M (x + ?z)) (enc_lo ?L (x + ?z)))
        (take 40 xs) = take 40 xs"
      using xs d c by (intro map_in_range_id [where d = d]) (simp_all add: dec3_sample [unfolded push_bit_of_1])
    then have get: "GetSamples (p \<lparr> dData := ?D \<rparr>) out d = Return (out @ take 40 xs @ ?pad)"
      using d c len by (simp add: GetSamples_def read3_eq dec3_list_concat)
    have dr: "drop (3 * min 40 (length xs)) ?D = ?zs" by (simp add: length_concat_enc3)
    have lp: "length ?pad = 40 - min 40 (length xs)"
      by (simp add: length_dec3_list)
    have cap: "capacity d = 40" "group_size d = 3"
      using c by (simp_all add: capacity_def group_size_def)
    show ?thesis
      unfolding cap by (intro exI [of _ ?D] exI [of _ ?pad] conjI set len get dr lp)
  qed
qed

lemma packet_roundtrip4:
  assumes d: "8 \<le> d" "d \<le> 28" and c: "22 \<le> d" and p: "length (dData p) = 120"
    and xs: "list_all (in_sample_range d) xs"
  shows "\<exists>D pad. SetSamples p xs d = Return (p \<lparr> dData := D \<rparr>, drop (capacity d) xs)
     \<and> length D = 120
     \<and> drop (group_size d * min (capacity d) (length xs)) D =
         replicate (120 - group_size d * min (capacity d) (length xs)) 0
     \<and> GetSamples (p \<lparr> dData := D \<rparr>) out d = Return (out @ take (capacity d) xs @ pad)
     \<and> length pad = capacity d - min (capacity d) (length xs)"
proof -
  let ?z = "push_bit (nat (d - 1)) 1 :: uint"
  let ?k = "min (capacity d) (length xs)"
  show ?thesis
  proof -
    let ?H = "nat (d - 7)" and ?M1 = "nat (d - 14)" and ?M2 = "nat (d - 21)" and ?L = "nat (28 - d)"
    let ?zs = "replicate (120 - 4 * min 30 (length xs)) (0::byte)"
    let ?D = "concat (map (enc4 ?H ?M1 ?M2 ?L ?z) (take 30 xs)) @ ?zs"
    let ?pad = "dec4_list ?H ?M1 ?M2 ?L ?z ?zs"
    have len: "length ?D = 120" by (simp add: length_concat_enc4)
    have set: "SetSamples p xs d = Return (p \<lparr> dData := ?D \<rparr>, drop 30 xs)"
      using d c p by (simp add: SetSamples_def write4_eq)
    have "map (\<lambda>x. dec4 ?H ?M1 ?M2 ?L ?z (enc_hi ?H (x + ?z)) (enc_hi ?M1 (x + ?z))
          (enc_hi ?M2 (x + ?z)) (enc_lo ?L (x + ?z))) (take 30 xs) = take 30 xs"
      using xs d c by (intro map_in_range_id [where d = d]) (simp_all add: dec4_sample [unfolded push_bit_of_1])
    then have get: "GetSamples (p \<lparr> dData := ?D \<rparr>) out d = Return (out @ take 30 xs @ ?pad)"
      using d c len by (simp add: GetSamples_def read4_eq dec4_list_concat)
    have dr: "drop (4 * min 30 (length xs)) ?D = ?zs" by (simp add: length_concat_enc4)
    have lp: "length ?pad = 30 - min 30 (length xs)"
      by (simp add: length_dec4_list)
    have cap: "capacity d = 30" "group_size d = 4"
      using c by (simp_all add: capacity_def group_size_def)
    show ?thesis
      unfolding cap by (intro exI [of _ ?D] exI [of _ ?pad] conjI set len get dr lp)
  qed
qed

lemma packet_roundtrip:
  assumes d: "8 \<le> d" "d \<le> 28" and p: "length (dData p) = 120"
    and xs: "list_all (in_sample_range d) xs"
  shows "\<exists>D pad. SetSamples p xs d = Return (p \<lparr> dData := D \<rparr>, drop (capacity d) xs)
     \<and> length D = 120
     \<and> drop (group_size d * min (capacity d) (length xs)) D =
         replicate (120 - group_size d * min (capacity d) (length xs)) 0
     \<and> GetSamples (p \<lparr> dData := D \<rparr>) out d = Return (out @ take (capacity d) xs @ pad)
     \<and> length pad = capacity d - min (capacity d) (length xs)"
proof -
  consider "d \<le> 14" | "15 \<le> d \<and> d \<le> 21" | "22 \<le> d" by linarith
  then show ?thesis
  proof cases
    case 1
    show ?thesis by (rule packet_roundtrip2 [OF d 1 p xs])
  next
    case 2
    show ?thesis by (rule packet_roundtrip3 [OF d 2 p xs])
  next
    case 3
    show ?thesis by (rule packet_roundtrip4 [OF d 3 p xs])
  qed
qed

lemma roundtrip_one_packet_eq:
  assumes d: "8 \<le> d" "d \<le> 28" and p: "wf_DataPacket p"
    and xs: "list_all (in_sample_range d) xs"
  shows "roundtrip_one_packet p xs d = Return (take (capacity d) xs)"
proof -
  from p have "length (dData p) = 120" by (simp add: wf_DataPacket_def)
  from packet_roundtrip [OF d this xs, of "[]"] obtain D pad where
    set: "SetSamples p xs d = Return (p \<lparr> dData := D \<rparr>, drop (capacity d) xs)" and
    get: "GetSamples (p \<lparr> dData := D \<rparr>) [] d = Return ([] @ take (capacity d) xs @ pad)" and
    pad: "length pad = capacity d - min (capacity d) (length xs)"
    by blast
  have "take (length xs) (take (capacity d) xs @ pad) = take (capacity d) xs"
  proof (cases "length xs \<le> capacity d")
    case True
    then show ?thesis by simp
  next
    case False
    then have "capacity d \<le> length xs" by simp
    then have "min (capacity d) (length xs) = capacity d" by (rule min_absorb1)
    with pad have "pad = []" by simp
    with False show ?thesis by simp
  qed
  with set get show ?thesis by (simp add: roundtrip_one_packet_def)
qed

text \<open>
  Claim C2, as stated: for every bit depth below 8 or above 28, \<open>SetSamples\<close> and
  \<open>GetSamples\<close> return the explicit failure UnsupportedBitDepth and never panic. The
  code panics: neither function has an error result.
\<close>

theorem SetSamples_GetSamples_panic_counterexample:
  "SetSamples \<lparr> dChannel = 0, dPacketNumber = 0, dData = replicate 120 0, dChecksum = 0 \<rparr> [] 7
     = Panic ''bit depth < 8 is not supported'' \<and>
   GetSamples \<lparr> dChannel = 0, dPacketNumber = 0, dData = replicate 120 0, dChecksum = 0 \<rparr> [] 29
     = Panic ''bit depth > 28 is not supported''"
  by (simp add: SetSamples_def GetSamples_def)

text \<open>
  Claim C2, amended: for every bit depth below 8, \<open>SetSamples\<close> and \<open>GetSamples\<close> panic
  with the message \<open>bit depth < 8 is not supported\<close>, and for every bit depth above 28
  with \<open>bit depth > 28 is not supported\<close>, which halts execution; neither returns a
  failure value. For the bit depths from 8 to 28 both return.
\<close>

theorem SetSamples_GetSamples_bit_depth:
  "(if d < 8 then
      SetSamples p samples d = Panic ''bit depth < 8 is not supported'' \<and>
      GetSamples p out d = Panic ''bit depth < 8 is not supported''
    else if 28 < d then
      SetSamples p samples d = Panic ''bit depth > 28 is not supported'' \<and>
      GetSamples p out d = Panic ''bit depth > 28 is not supported''
    else (\<exists>r. SetSamples p samples d = Return r) \<and> (\<exists>r. GetSamples p out d = Return r))"
  by (simp add: SetSamples_def GetSamples_def)

theorem SetSamples_GetSamples_bit_depth_witness:
  "SetSamples \<lparr> dChannel = 0, dPacketNumber = 0, dData = replicate 120 0, dChecksum = 0 \<rparr> [1] 0
     = Panic ''bit depth < 8 is not supported'' \<and>
   GetSamples \<lparr> dChannel = 0, dPacketNumber = 0, dData = replicate 120 0, dChecksum = 0 \<rparr> [] 0
     = Panic ''bit depth < 8 is not supported'' \<and>
   SetSamples \<lparr> dChannel = 0, dPacketNumber = 0, dData = replicate 120 0, dChecksum = 0 \<rparr> [1] 32
     = Panic ''bit depth > 28 is not supported'' \<and>
   GetSamples \<lparr> dChannel = 0, dPacketNumber = 0, dData = replicate 120 0, dChecksum = 0 \<rparr> [] 32
     = Panic ''bit depth > 28 is not supported''"
  using
    SetSamples_GetSamples_bit_depth [of 0
      "\<lparr> dChannel = 0, dPacketNumber = 0, dData = replicate 120 0, dChecksum = 0 \<rparr>" "[1]" "[]"]
    SetSamples_GetSamples_bit_depth [of 32
      "\<lparr> dChannel = 0, dPacketNumber = 0, dData = replicate 120 0, dChecksum = 0 \<rparr>" "[1]" "[]"]
  by simp

section \<open>The transfer session\<close>

lemma SetSamples_rest:
  assumes "8 \<le> d" "d \<le> 28" "length (dData p) = 120"
  shows "\<exists>D. SetSamples p xs d = Return (p \<lparr> dData := D \<rparr>, drop (capacity d) xs) \<and> length D = 120"
proof -
  let ?z = "push_bit (nat (d - 1)) 1 :: uint"
  consider "d \<le> 14" | "15 \<le> d \<and> d \<le> 21" | "22 \<le> d" by linarith
  then show ?thesis
  proof cases
    case 1
    let ?D = "concat (map (enc2 (nat (d - 7)) (nat (14 - d)) ?z) (take 60 xs)) @
      replicate (120 - 2 * min 60 (length xs)) 0"
    have "length ?D = 120" by (simp add: length_concat_enc2)
    moreover have "SetSamples p xs d = Return (p \<lparr> dData := ?D \<rparr>, drop (capacity d) xs)"
      using 1 assms by (simp add: SetSamples_def write2_eq capacity_def)
    ultimately show ?thesis by blast
  next
    case 2
    let ?D = "concat (map (enc3 (nat (d - 7)) (nat (d - 14)) (nat (21 - d)) ?z) (take 40 xs)) @
      replicate (120 - 3 * min 40 (length xs)) 0"
    have "length ?D = 120" by (simp add: length_concat_enc3)
    moreover have "SetSamples p xs d = Return (p \<lparr> dData := ?D \<rparr>, drop (capacity d) xs)"
      using 2 assms by (simp add: SetSamples_def write3_eq capacity_def)
    ultimately show ?thesis by blast
  next
    case 3
    let ?D = "concat (map (enc4 (nat (d - 7)) (nat (d - 14)) (nat (d - 21)) (nat (28 - d)) ?z)
      (take 30 xs)) @ replicate (120 - 4 * min 30 (length xs)) 0"
    have "length ?D = 120" by (simp add: length_concat_enc4)
    moreover have "SetSamples p xs d = Return (p \<lparr> dData := ?D \<rparr>, drop (capacity d) xs)"
      using 3 assms by (simp add: SetSamples_def write4_eq capacity_def)
    ultimately show ?thesis by blast
  qed
qed

lemma NextMessage_step:
  assumes "session_ok s" "\<not> Done s"
  shows "\<exists>p s'. NextMessage s = Return (Some (MDataPacket p), s') \<and>
     dPacketNumber p = sNum s \<and> p = sData s' \<and>
     sSamples s' = drop (capacity (sBitDepth s)) (sSamples s) \<and>
     sNum s' = (if sNum s \<ge> 127 then 0 else sNum s + 1) \<and>
     sLength s' = sLength s \<and> sBitDepth s' = sBitDepth s \<and> session_ok s'"
proof -
  from assms(1) obtain D where
    "SetSamples (sData s) (sSamples s) (sBitDepth s) =
       Return ((sData s) \<lparr> dData := D \<rparr>, drop (capacity (sBitDepth s)) (sSamples s))"
    "length D = 120"
    using SetSamples_rest [of "sBitDepth s" "sData s" "sSamples s"]
    by (auto simp add: session_ok_def)
  with assms show ?thesis
    by (simp add: NextMessage_def nextNumber_def Let_def session_ok_def)
qed

lemma NextMessage_done:
  assumes "Done s"
  shows "NextMessage s = Return (None, s)"
  using assms by (simp add: NextMessage_def)

lemma calls_state:
  assumes "session_ok s"
  shows "\<exists>ms s'. calls n s = Return (ms, s') \<and> length ms = n \<and>
     sSamples s' = drop (n * capacity (sBitDepth s)) (sSamples s) \<and>
     sLength s' = sLength s \<and> sBitDepth s' = sBitDepth s \<and> session_ok s'"
  using assms
proof (induction n arbitrary: s)
  case 0
  then show ?case by simp
next
  case (Suc n)
  show ?case
  proof (cases "Done s")
    case True
    then have "sSamples s = []" by (simp add: Done_def)
    with Suc.IH [OF Suc.prems] True show ?thesis
      by (auto simp add: NextMessage_done)
  next
    case False
    from NextMessage_step [OF Suc.prems False] obtain p s1 where
      1: "NextMessage s = Return (Some (MDataPacket p), s1)"
      "sSamples s1 = drop (capacity (sBitDepth s)) (sSamples s)"
      "sLength s1 = sLength s" "sBitDepth s1 = sBitDepth s" "session_ok s1"
      by blast
    from Suc.IH [OF 1(5)] obtain ms s' where
      2: "calls n s1 = Return (ms, s')" "length ms = n"
      "sSamples s' = drop (n * capacity (sBitDepth s1)) (sSamples s1)"
      "sLength s' = sLength s1" "sBitDepth s' = sBitDepth s1" "session_ok s'"
      by blast
    from 1 2 show ?thesis by (simp add: add.commute)
  qed
qed


lemma next_num:
  fixes x :: byte
  assumes "unat x = j mod 128"
  shows "unat (if x \<ge> 127 then 0 else x + 1) = Suc j mod 128"
proof (cases "x \<ge> 127")
  case True
  then have "127 \<le> unat x" by (simp add: word_le_nat_alt)
  moreover have "j mod 128 < 128" by simp
  ultimately have "j mod 128 = 127" using assms by linarith
  then have "Suc j mod 128 = 0" by (simp add: mod_Suc)
  with True show ?thesis by simp
next
  case False
  then have "unat x < 127" by (simp add: word_le_nat_alt)
  then have "unat (x + 1) = unat x + 1" by (simp add: unat_word_ariths)
  moreover from \<open>unat x < 127\<close> assms have "Suc j mod 128 = j mod 128 + 1"
    by (simp add: mod_Suc)
  ultimately show ?thesis using False assms by simp
qed

lemma upt_0_Suc_map: "map f [0..<Suc n] = f 0 # map (\<lambda>i. f (Suc i)) [0..<n]"
proof -
  have "[0..<Suc n] = 0 # [Suc 0..<Suc n]"
    by (rule upt_conv_Cons) simp
  then have "[0..<Suc n] = 0 # map Suc [0..<n]"
    by (simp only: map_Suc_upt)
  then show ?thesis by (simp add: comp_def del: upt_Suc)
qed

lemma calls_numbers:
  assumes "session_ok s" "unat (sNum s) = j mod 128"
    and "n = 0 \<or> (n - 1) * capacity (sBitDepth s) < length (sSamples s)"
  shows "\<exists>ms s'. calls n s = Return (ms, s') \<and>
     map packet_number ms = map (\<lambda>i. Some ((j + i) mod 128)) [0..<n]"
  using assms
proof (induction n arbitrary: s j)
  case 0
  then show ?case by simp
next
  case (Suc n)
  from Suc.prems(3) have ne: "n * capacity (sBitDepth s) < length (sSamples s)" by simp
  then have "\<not> Done s" by (auto simp add: Done_def)
  from NextMessage_step [OF Suc.prems(1) this] obtain p s1 where
    1: "NextMessage s = Return (Some (MDataPacket p), s1)" "dPacketNumber p = sNum s"
    "sSamples s1 = drop (capacity (sBitDepth s)) (sSamples s)"
    "sNum s1 = (if sNum s \<ge> 127 then 0 else sNum s + 1)"
    "sBitDepth s1 = sBitDepth s" "session_ok s1"
    by blast
  have num: "unat (sNum s1) = Suc j mod 128"
    unfolding 1(4) using Suc.prems(2) by (rule next_num)
  have "n = 0 \<or> (n - 1) * capacity (sBitDepth s1) < length (sSamples s1)"
  proof (cases n)
    case 0
    then show ?thesis by simp
  next
    case (Suc m)
    with ne 1(3,5) show ?thesis by simp
  qed
  from Suc.IH [OF 1(6) num this] obtain ms s' where
    2: "calls n s1 = Return (ms, s')"
    "map packet_number ms = map (\<lambda>i. Some ((Suc j + i) mod 128)) [0..<n]"
    by blast
  have "map packet_number (Some (MDataPacket p) # ms) =
      map (\<lambda>i. Some ((j + i) mod 128)) [0..<Suc n]"
    unfolding upt_0_Suc_map using 1(2) 2(2) Suc.prems(2) by simp
  with 1(1) 2(1) show ?case by simp
qed

lemma NewSendOp_ok:
  assumes "8 \<le> hBitDepth h" "hBitDepth h \<le> 28"
  shows "session_ok (fst (NewSendOp samples h))"
    and "sBitDepth (fst (NewSendOp samples h)) = uint (hBitDepth h)"
    and "sSamples (fst (NewSendOp samples h)) = samples"
    and "sLength (fst (NewSendOp samples h)) = int (length samples)"
    and "sNum (fst (NewSendOp samples h)) = 0"
  using assms
  by (simp_all add: NewSendOp_def session_ok_def Let_def word_le_def)

lemma calls_unsupported:
  assumes "\<not> Done s" "sBitDepth s < 8 \<or> 28 < sBitDepth s"
  shows "calls (Suc n) s =
    Panic (if sBitDepth s < 8 then ''bit depth < 8 is not supported''
           else ''bit depth > 28 is not supported'')"
  using assms by (auto simp add: NextMessage_def SetSamples_def)

lemma packet_numbers_unsupported:
  assumes "samples \<noteq> []" "hBitDepth h < 8 \<or> 28 < hBitDepth h"
  shows "packet_numbers (Suc n) samples h =
    Panic (if hBitDepth h < 8 then ''bit depth < 8 is not supported''
           else ''bit depth > 28 is not supported'')"
proof -
  let ?s = "fst (NewSendOp samples h)"
  have d: "sBitDepth ?s = uint (hBitDepth h)" and "\<not> Done ?s"
    using assms(1) by (simp_all add: NewSendOp_def Done_def)
  moreover have "(uint (hBitDepth h) < 8) = (hBitDepth h < 8)"
    "(28 < uint (hBitDepth h)) = (28 < hBitDepth h)"
    by (simp_all add: word_less_def)
  ultimately have "calls (Suc n) ?s =
    Panic (if hBitDepth h < 8 then ''bit depth < 8 is not supported''
           else ''bit depth > 28 is not supported'')"
    using calls_unsupported [of ?s n] assms(2) by simp
  then show ?thesis by (simp add: packet_numbers_def del: calls.simps)
qed

text \<open>
  Claim C8, as stated: for every session with enough samples for at least 200 packets,
  the N-th call of \<open>NextMessage\<close>, counting from 1, returns a packet whose packet number
  is \<open>(N-1) mod 128\<close>. \<open>NewSendOp\<close> takes the bit depth from the header as it is, and
  \<open>NextMessage\<close> hands it to \<open>SetSamples\<close>: a session of 12000 samples whose header
  has bit depth 32, or bit depth 7, has samples for 200 packets, and its first call of
  \<open>NextMessage\<close> panics, so that no packet is returned.
\<close>

theorem packet_numbers_unsupported_depth_counterexample:
  "199 * capacity (uint (32 :: byte)) < length (replicate 12000 (0 :: goint)) \<and>
   packet_numbers 200 (replicate 12000 0)
     \<lparr> hChannel = 1, hNumber = 2, hBitDepth = 32, hPeriod = 22675, hLength = 0,
       hLoopStart = 0, hLoopEnd = 0, hLoopType = 0x7F \<rparr> =
     Panic ''bit depth > 28 is not supported'' \<and>
   199 * capacity (uint (7 :: byte)) < length (replicate 12000 (0 :: goint)) \<and>
   packet_numbers 200 (replicate 12000 0)
     \<lparr> hChannel = 1, hNumber = 2, hBitDepth = 7, hPeriod = 22675, hLength = 0,
       hLoopStart = 0, hLoopEnd = 0, hLoopType = 0x7F \<rparr> =
     Panic ''bit depth < 8 is not supported''"
  using
    packet_numbers_unsupported [of "replicate 12000 0" "\<lparr> hChannel = 1, hNumber = 2,
      hBitDepth = 32, hPeriod = 22675, hLength = 0, hLoopStart = 0, hLoopEnd = 0,
      hLoopType = 0x7F \<rparr>" 199]
    packet_numbers_unsupported [of "replicate 12000 0" "\<lparr> hChannel = 1, hNumber = 2,
      hBitDepth = 7, hPeriod = 22675, hLength = 0, hLoopStart = 0, hLoopEnd = 0,
      hLoopType = 0x7F \<rparr>" 199]
  by (simp add: capacity_def)

text \<open>
  Claim C8, amended: for every session whose header has a supported bit depth, from 8 to
  28, and with enough samples for the packets asked for (at least 200 in the claim), the
  N-th call of \<open>NextMessage\<close>, counting from 1, returns a packet whose packet number is
  \<open>(N-1) mod 128\<close>: the numbers of the first \<open>n+1\<close> packets are
  \<open>0 mod 128, \<dots>, n mod 128\<close>, wrapping from 127 back to 0, and 200 successive calls
  produce \<open>0, \<dots>, 127, 0, \<dots>, 71\<close>.
\<close>

theorem packet_numbers_wrap:
  assumes "8 \<le> hBitDepth h" "hBitDepth h \<le> 28"
    and "n * capacity (uint (hBitDepth h)) < length samples"
  shows "packet_numbers (Suc n) samples h = Return (map (\<lambda>i. Some (i mod 128)) [0..<Suc n])"
proof -
  let ?s = "fst (NewSendOp samples h)"
  note ok = NewSendOp_ok [OF assms(1,2), of samples]
  have "unat (sNum ?s) = 0 mod 128" by (simp add: ok)
  moreover have "Suc n = 0 \<or> (Suc n - 1) * capacity (sBitDepth ?s) < length (sSamples ?s)"
    using assms(3) by (simp add: ok)
  ultimately obtain ms s' where "calls (Suc n) ?s = Return (ms, s')"
    "map packet_number ms = map (\<lambda>i. Some ((0 + i) mod 128)) [0..<Suc n]"
    using calls_numbers [OF ok(1), of 0 "Suc n"] by blast
  then show ?thesis by (simp add: packet_numbers_def del: calls.simps upt_Suc)
qed

theorem packet_numbers_wrap_witness:
  "packet_numbers 200 (replicate 12000 0)
     \<lparr> hChannel = 1, hNumber = 2, hBitDepth = 8, hPeriod = 22675, hLength = 0,
       hLoopStart = 0, hLoopEnd = 0, hLoopType = 0x7F \<rparr> =
   Return (map Some ([0..<128] @ [0..<72]))"
proof -
  have "map (\<lambda>i. Some (i mod 128)) [0..<Suc 199] = map Some ([0..<128] @ [0..<72])"
    by code_simp
  with packet_numbers_wrap [of "\<lparr> hChannel = 1, hNumber = 2, hBitDepth = 8, hPeriod = 22675,
      hLength = 0, hLoopStart = 0, hLoopEnd = 0, hLoopType = 0x7F \<rparr>" 199 "replicate 12000 0"]
  show ?thesis by (simp add: capacity_def del: upt_Suc)
qed

section \<open>The round trip of the samples\<close>

lemma GetSamples_data:
  "dData p = dData q \<Longrightarrow> GetSamples p out d = GetSamples q out d"
  by (simp add: GetSamples_def read2_def read3_def read4_def)

lemma NextMessage_roundtrip:
  assumes ok: "session_ok s" and nd: "\<not> Done s"
    and r: "list_all (in_sample_range (sBitDepth s)) (sSamples s)"
  shows "\<exists>p s' pad. NextMessage s = Return (Some (MDataPacket p), s') \<and>
     GetSamples p out (sBitDepth s) =
       Return (out @ take (capacity (sBitDepth s)) (sSamples s) @ pad) \<and>
     length pad = capacity (sBitDepth s) - min (capacity (sBitDepth s)) (length (sSamples s)) \<and>
     sSamples s' = drop (capacity (sBitDepth s)) (sSamples s) \<and>
     sBitDepth s' = sBitDepth s \<and> session_ok s'"
proof -
  let ?d = "sBitDepth s" and ?xs = "sSamples s"
  from ok have d: "8 \<le> ?d" "?d \<le> 28" and l: "length (dData (sData s)) = 120"
    by (simp_all add: session_ok_def)
  from packet_roundtrip [OF d l r, of out] obtain D pad where
    set: "SetSamples (sData s) ?xs ?d = Return ((sData s) \<lparr> dData := D \<rparr>, drop (capacity ?d) ?xs)"
    and len: "length D = 120"
    and get: "GetSamples ((sData s) \<lparr> dData := D \<rparr>) out ?d =
       Return (out @ take (capacity ?d) ?xs @ pad)"
    and pad: "length pad = capacity ?d - min (capacity ?d) (length ?xs)"
    by blast
  let ?s1 = "s \<lparr> sData := (sData s) \<lparr> dData := D \<rparr>, sSamples := drop (capacity ?d) ?xs \<rparr>"
  let ?s2 = "snd (nextNumber ?s1)"
  let ?s3 = "?s2 \<lparr> sData := (sData ?s2) \<lparr> dPacketNumber := fst (nextNumber ?s1) \<rparr> \<rparr>"
  let ?s4 = "?s3 \<lparr> sData := (sData ?s3) \<lparr> dChecksum := ComputeChecksum (sData ?s3) \<rparr> \<rparr>"
  have nm: "NextMessage s = Return (Some (MDataPacket (sData ?s4)), ?s4)"
    using nd set by (simp add: NextMessage_def Let_def split_beta)
  have dd: "dData (sData ?s4) = dData ((sData s) \<lparr> dData := D \<rparr>)"
    by (simp add: nextNumber_def Let_def)
  have g: "GetSamples (sData ?s4) out ?d = Return (out @ take (capacity ?d) ?xs @ pad)"
    using GetSamples_data [OF dd] get by simp
  have f: "sSamples ?s4 = drop (capacity ?d) ?xs" "sBitDepth ?s4 = ?d" "session_ok ?s4"
    using d len by (simp_all add: nextNumber_def Let_def session_ok_def)
  from nm g pad f show ?thesis by blast
qed

lemma take_chunks:
  assumes "length pad = c - min c (length xs)"
    and "take (length (take (n * c) (drop c xs))) rest = take (n * c) (drop c xs)"
  shows "take (length (take (Suc n * c) xs)) (take c xs @ pad @ rest) = take (Suc n * c) xs"
proof (cases "c \<le> length xs")
  case True
  then have "min c (length xs) = c" by simp
  with assms(1) have pad: "pad = []" by simp
  have t: "take (Suc n * c) xs = take c xs @ take (n * c) (drop c xs)"
    using take_add [of c "n * c" xs] by simp
  have "length (take c xs) = c" using True by simp
  then have "take (length (take (Suc n * c) xs)) (take c xs @ rest) =
      take c xs @ take (length (take (n * c) (drop c xs))) rest"
    unfolding t by simp
  with assms(2) pad t show ?thesis by simp
next
  case False
  then have "take c xs = xs" "take (Suc n * c) xs = xs" by simp_all
  then show ?thesis by simp
qed

lemma calls_decode:
  assumes "session_ok s" "list_all (in_sample_range (sBitDepth s)) (sSamples s)"
  shows "\<exists>ms s' out'. calls n s = Return (ms, s') \<and>
     decode_all ms out (sBitDepth s) = Return (out @ out') \<and>
     take (length (take (n * capacity (sBitDepth s)) (sSamples s))) out' =
       take (n * capacity (sBitDepth s)) (sSamples s)"
  using assms
proof (induction n arbitrary: s out)
  case 0
  then show ?case by simp
next
  case (Suc n)
  let ?d = "sBitDepth s" and ?xs = "sSamples s"
  show ?case
  proof (cases "Done s")
    case True
    then have e: "?xs = []" by (simp add: Done_def)
    from Suc.IH [OF Suc.prems, of out] obtain ms s' out' where
      "calls n s = Return (ms, s')" "decode_all ms out ?d = Return (out @ out')"
      by blast
    with True e show ?thesis by (simp add: NextMessage_done)
  next
    case False
    from NextMessage_roundtrip [OF Suc.prems(1) False Suc.prems(2), of out]
    obtain p s1 pad where
      1: "NextMessage s = Return (Some (MDataPacket p), s1)"
      "GetSamples p out ?d = Return (out @ take (capacity ?d) ?xs @ pad)"
      "length pad = capacity ?d - min (capacity ?d) (length ?xs)"
      "sSamples s1 = drop (capacity ?d) ?xs" "sBitDepth s1 = ?d" "session_ok s1"
      by blast
    have "list_all (in_sample_range (sBitDepth s1)) (sSamples s1)"
      using Suc.prems(2) 1(4,5) by (auto simp add: list_all_iff dest: in_set_dropD)
    from Suc.IH [OF 1(6) this, of "out @ take (capacity ?d) ?xs @ pad"]
    obtain ms s' rest where
      2: "calls n s1 = Return (ms, s')"
      "decode_all ms (out @ take (capacity ?d) ?xs @ pad) ?d =
         Return ((out @ take (capacity ?d) ?xs @ pad) @ rest)"
      "take (length (take (n * capacity ?d) (drop (capacity ?d) ?xs))) rest =
         take (n * capacity ?d) (drop (capacity ?d) ?xs)"
      unfolding 1(4,5) by blast
    have c: "calls (Suc n) s = Return (Some (MDataPacket p) # ms, s')"
      using 1(1) 2(1) by simp
    have dec: "decode_all (Some (MDataPacket p) # ms) out ?d =
        Return (out @ (take (capacity ?d) ?xs @ pad @ rest))"
      using 1(2) 2(2) by simp
    from c dec take_chunks [OF 1(3) 2(3)] show ?thesis by blast
  qed
qed

lemma roundtrip_session_eq:
  assumes "8 \<le> hBitDepth h" "hBitDepth h \<le> 28"
    and "list_all (in_sample_range (uint (hBitDepth h))) samples"
    and "length samples \<le> n * capacity (uint (hBitDepth h))"
  shows "roundtrip_session n samples h = Return samples"
proof -
  let ?s = "fst (NewSendOp samples h)"
  note ok = NewSendOp_ok [OF assms(1,2), of samples]
  have "list_all (in_sample_range (sBitDepth ?s)) (sSamples ?s)" using assms(3) by (simp add: ok)
  from calls_decode [OF ok(1) this, of n "[]"] obtain ms s' out' where
    "calls n ?s = Return (ms, s')"
    "decode_all ms [] (uint (hBitDepth h)) = Return out'"
    "take (length (take (n * capacity (uint (hBitDepth h))) samples)) out' =
       take (n * capacity (uint (hBitDepth h))) samples"
    by (auto simp add: ok)
  with assms(4) show ?thesis by (simp add: roundtrip_session_def)
qed

text \<open>
  Claim C4, as stated: for a sample list of any length, shorter or longer than the
  capacity of one packet, decoding the packet produced by \<open>SetSamples\<close> and truncating
  to the original sample count reproduces the original samples. One packet holds 60
  samples at 8 bits: of 61 samples, the packet gives back the first 60, and \<open>SetSamples\<close>
  returns the last one as the remaining samples.
\<close>

theorem roundtrip_longer_than_packet_counterexample:
  "list_all (in_sample_range 8) (replicate 61 0) \<and>
   roundtrip_one_packet
     \<lparr> dChannel = 0, dPacketNumber = 0, dData = replicate 120 0, dChecksum = 0 \<rparr>
     (replicate 61 0) 8 = Return (replicate 60 0) \<and>
   replicate 60 0 \<noteq> (replicate 61 0 :: goint list)"
proof -
  have r: "list_all (in_sample_range 8) (replicate 61 0)"
    by (simp add: list_all_iff in_sample_range_def)
  have "replicate 60 0 \<noteq> (replicate 61 0 :: goint list)"
    using arg_cong [of "replicate 60 0" "replicate 61 (0 :: goint)" length] by auto
  with r roundtrip_one_packet_eq [of 8 _ "replicate 61 0", OF _ _ _ r] show ?thesis
    by (simp add: wf_DataPacket_def capacity_def)
qed

text \<open>
  Claim C4, amended: for every bit depth \<open>d\<close> from 8 to 28 and every list of samples, each
  in the signed range from \<open>-2^(d-1)\<close> to \<open>2^(d-1)-1\<close>, shorter or longer than the
  capacity of one packet (60 samples for \<open>d \<le> 14\<close>, 40 for \<open>d \<le> 21\<close>, 30 for
  \<open>d \<le> 28\<close>): \<open>SetSamples\<close> consumes the first samples up to the capacity and returns
  the rest; decoding the packet with \<open>GetSamples\<close> and truncating to the original sample
  count reproduces exactly the consumed samples (all of them when the list is not longer
  than the capacity); all payload bytes beyond the consumed samples are zero; and
  decoding all the packets of a session that has consumed the whole list, truncated to
  the original sample count, reproduces the original samples exactly.
\<close>

theorem SetSamples_GetSamples_roundtrip:
  assumes "8 \<le> d" "d \<le> 28" "wf_DataPacket p" "list_all (in_sample_range d) samples"
  shows "roundtrip_one_packet p samples d = Return (take (capacity d) samples) \<and>
    (\<exists>D. SetSamples p samples d = Return (p \<lparr> dData := D \<rparr>, drop (capacity d) samples) \<and>
      length D = 120 \<and>
      drop (group_size d * min (capacity d) (length samples)) D =
        replicate (120 - group_size d * min (capacity d) (length samples)) 0) \<and>
    (\<forall>h n. uint (hBitDepth h) = d \<and> length samples \<le> n * capacity d \<longrightarrow>
      roundtrip_session n samples h = Return samples)"
proof -
  from assms(3) have "length (dData p) = 120" by (simp add: wf_DataPacket_def)
  from packet_roundtrip [OF assms(1,2) this assms(4), of "[]"]
  have 1: "\<exists>D. SetSamples p samples d = Return (p \<lparr> dData := D \<rparr>, drop (capacity d) samples) \<and>
      length D = 120 \<and>
      drop (group_size d * min (capacity d) (length samples)) D =
        replicate (120 - group_size d * min (capacity d) (length samples)) 0"
    by blast
  have 2: "roundtrip_session n samples h = Return samples"
    if h: "uint (hBitDepth h) = d" and n: "length samples \<le> n * capacity d" for h n
  proof -
    from assms(1,2) h have "8 \<le> hBitDepth h" "hBitDepth h \<le> 28"
      by (simp_all add: word_le_def)
    then show ?thesis using assms(4) n unfolding h [symmetric] by (rule roundtrip_session_eq)
  qed
  from roundtrip_one_packet_eq [OF assms] 1 2 show ?thesis by blast
qed

theorem SetSamples_GetSamples_roundtrip_witness:
  "roundtrip_one_packet
     \<lparr> dChannel = 0, dPacketNumber = 0, dData = replicate 120 0x55, dChecksum = 0 \<rparr>
     [-127, -126, -125] 8 = Return [-127, -126, -125] \<and>
   roundtrip_session 2 (replicate 61 0)
     \<lparr> hChannel = 0, hNumber = 0, hBitDepth = 8, hPeriod = 22675, hLength = 0,
       hLoopStart = 0, hLoopEnd = 0, hLoopType = 0x7F \<rparr> = Return (replicate 61 0)"
proof -
  have "list_all (in_sample_range 8) [-127, -126, -125]"
    by (simp add: in_sample_range_def)
  from SetSamples_GetSamples_roundtrip [of 8
      "\<lparr> dChannel = 0, dPacketNumber = 0, dData = replicate 120 0x55, dChecksum = 0 \<rparr>", OF _ _ _ this]
  have 1: "roundtrip_one_packet
     \<lparr> dChannel = 0, dPacketNumber = 0, dData = replicate 120 0x55, dChecksum = 0 \<rparr>
     [-127, -126, -125] 8 = Return [-127, -126, -125]"
    by (simp add: wf_DataPacket_def capacity_def)
  have "list_all (in_sample_range 8) (replicate 61 0)"
    by (simp add: list_all_iff in_sample_range_def)
  from SetSamples_GetSamples_roundtrip [of 8
      "\<lparr> dChannel = 0, dPacketNumber = 0, dData = replicate 120 0x55, dChecksum = 0 \<rparr>", OF _ _ _ this]
  have "\<forall>h n. uint (hBitDepth h) = 8 \<and> length (replicate 61 (0 :: goint)) \<le> n * capacity 8 \<longrightarrow>
      roundtrip_session n (replicate 61 0) h = Return (replicate 61 0)"
    by (simp add: wf_DataPacket_def)
  then have "roundtrip_session 2 (replicate 61 0)
     \<lparr> hChannel = 0, hNumber = 0, hBitDepth = 8, hPeriod = 22675, hLength = 0,
       hLoopStart = 0, hLoopEnd = 0, hLoopType = 0x7F \<rparr> = Return (replicate 61 0)"
    by (simp add: capacity_def)
  with 1 show ?thesis by simp
qed

section \<open>Rounding to \<open>float64\<close>\<close>

declare bit_length.simps [simp del]

lemma bit_length_bounds:
  "0 < n \<Longrightarrow> 2 ^ (bit_length n - 1) \<le> n \<and> n < 2 ^ bit_length n"
proof (induction n rule: bit_length.induct)
  case (1 n)
  show ?case
  proof (cases "n div 2 = 0")
    case True
    with "1.prems" have "n = 1" by (simp add: div_eq_0_iff) 
    then show ?thesis by (simp add: bit_length.simps [of "Suc 0"] bit_length.simps [of 0])
  next
    case False
    with "1.IH" "1.prems" have IH: "2 ^ (bit_length (n div 2) - 1) \<le> n div 2"
      "n div 2 < 2 ^ bit_length (n div 2)" by simp_all
    have pos: "0 < bit_length (n div 2)"
      using False by (simp add: bit_length.simps [of "n div 2"])
    have bl: "bit_length n = Suc (bit_length (n div 2))"
      using "1.prems" by (simp add: bit_length.simps [of n])
    have "2 ^ (bit_length n - 1) = 2 * 2 ^ (bit_length (n div 2) - 1)"
      using pos bl by (cases "bit_length (n div 2)") simp_all
    also have "\<dots> \<le> 2 * (n div 2)" using IH(1) by simp
    also have "\<dots> \<le> n" by simp
    finally have lo: "2 ^ (bit_length n - 1) \<le> n" .
    have "n < 2 * (n div 2) + 2" by presburger
    also have "\<dots> \<le> 2 * 2 ^ bit_length (n div 2)" using IH(2) by simp
    finally have "n < 2 ^ bit_length n" using bl by simp
    with lo show ?thesis ..
  qed
qed

lemma bit_length_pos: "0 < n \<Longrightarrow> 0 < bit_length n"
  by (simp add: bit_length.simps [of n])

lemma ilog2_bounds:
  assumes "0 < x"
  shows "2 powi ilog2 x \<le> x \<and> x < 2 powi (ilog2 x + 1)"
proof (cases "1 \<le> x")
  case True
  define n where "n = nat \<lfloor>x\<rfloor>"
  have n: "0 < n" "of_nat n \<le> x" "x < of_nat n + 1"
    using True by (simp_all add: n_def, linarith+)
  define b where "b = bit_length n"
  from bit_length_bounds [OF n(1)] bit_length_pos [OF n(1)]
  have b: "2 ^ (b - 1) \<le> n" "n < 2 ^ b" "0 < b" by (simp_all add: b_def)
  have e: "ilog2 x = int b - 1" using True by (simp add: ilog2_def n_def b_def)
  have "(2::rat) powi (int b - 1) = 2 ^ (b - 1)"
    using b(3) by (simp add: power_int_def nat_diff_distrib')
  also have "\<dots> = of_nat (2 ^ (b - 1))" by simp
  also have "\<dots> \<le> of_nat n" using b(1) by (simp only: of_nat_le_iff)
  finally have lo: "2 powi ilog2 x \<le> x" using n(2) e by simp
  have "of_nat n + 1 \<le> (of_nat (2 ^ b) :: rat)"
    using b(2) by (metis Suc_leI of_nat_Suc of_nat_le_iff semiring_1_class.of_nat_simps(2) add.commute)
  then have "x < 2 ^ b" using n(3) by simp
  then have "x < 2 powi (ilog2 x + 1)" using e by simp
  with lo show ?thesis ..
next
  case False
  with assms have x: "0 < x" "x < 1" by simp_all
  define y where "y = 1 / x"
  have y: "1 < y" using x by (simp add: y_def)
  define m where "m = nat (\<lceil>y\<rceil> - 1)"
  have c: "2 \<le> \<lceil>y\<rceil>" using y by linarith
  then have m: "0 < m" "int m = \<lceil>y\<rceil> - 1" by (simp_all add: m_def)
  have my: "of_nat m < y" "y \<le> of_nat m + 1"
  proof -
    have "of_int (\<lceil>y\<rceil> - 1) < y" by linarith
    then show "of_nat m < y" using m(2) by (metis of_int_of_nat_eq)
    have "y \<le> of_int \<lceil>y\<rceil>" by linarith
    also have "of_int \<lceil>y\<rceil> = (of_int (int m) :: rat) + 1" using m(2) by simp
    finally show "y \<le> of_nat m + 1" by simp
  qed
  define b where "b = bit_length m"
  from bit_length_bounds [OF m(1)] bit_length_pos [OF m(1)]
  have b: "2 ^ (b - 1) \<le> m" "m < 2 ^ b" "0 < b" by (simp_all add: b_def)
  have e: "ilog2 x = - int b" using False by (simp add: ilog2_def m_def b_def y_def)
  have "(2::rat) ^ (b - 1) = of_nat (2 ^ (b - 1))" by simp
  also have "\<dots> \<le> of_nat m" using b(1) by (simp only: of_nat_le_iff)
  also note my(1)
  finally have "2 ^ (b - 1) < y" .
  then have "x < 1 / 2 ^ (b - 1)"
    using x by (simp add: y_def field_simps)
  also have "1 / 2 ^ (b - 1) = (2::rat) powi (- int b + 1)"
    using b(3) by (cases b) (simp_all add: power_int_def nat_diff_distrib' field_simps)
  finally have hi: "x < 2 powi (ilog2 x + 1)" using e by simp
  have "of_nat m + 1 \<le> (of_nat (2 ^ b) :: rat)"
    using b(2) by (metis Suc_leI of_nat_Suc of_nat_le_iff semiring_1_class.of_nat_simps(2) add.commute)
  with my(2) have "y \<le> 2 ^ b" by simp
  then have "1 / 2 ^ b \<le> x" using x by (simp add: y_def field_simps)
  moreover have "1 / 2 ^ b = (2::rat) powi (- int b)"
    by (simp add: power_int_minus_divide)
  ultimately have "2 powi ilog2 x \<le> x" using e by simp
  with hi show ?thesis by simp
qed

lemma ilog2_unique:
  assumes "2 powi e \<le> x" "x < 2 powi (e + 1)"
  shows "ilog2 x = e"
proof -
  have "0 < x" using assms(1) order_less_le_trans [OF zero_less_power_int [of "2::rat" e]] by simp
  from ilog2_bounds [OF this] have b: "2 powi ilog2 x \<le> x" "x < 2 powi (ilog2 x + 1)" by simp_all
  have "\<not> ilog2 x + 1 \<le> e"
  proof
    assume "ilog2 x + 1 \<le> e"
    then have "(2::rat) powi (ilog2 x + 1) \<le> 2 powi e" by (intro power_int_increasing) simp_all
    with b(2) assms(1) show False by simp
  qed
  moreover have "\<not> e + 1 \<le> ilog2 x"
  proof
    assume "e + 1 \<le> ilog2 x"
    then have "(2::rat) powi (e + 1) \<le> 2 powi ilog2 x" by (intro power_int_increasing) simp_all
    with b(1) assms(2) show False by simp
  qed
  ultimately show ?thesis by simp
qed


lemma round_half_even_cases:
  "round_half_even x = \<lfloor>x\<rfloor> \<or> round_half_even x = \<lfloor>x\<rfloor> + 1"
  by (simp add: round_half_even_def Let_def)

lemma round_half_even_of_int: "round_half_even (of_int n) = n"
  by (simp add: round_half_even_def Let_def)

lemma round_half_even_err: "\<bar>of_int (round_half_even x) - x\<bar> \<le> 1 / 2"
proof -
  have "of_int \<lfloor>x\<rfloor> \<le> x" "x < of_int \<lfloor>x\<rfloor> + 1" by linarith+
  then show ?thesis
    by (auto simp add: round_half_even_def Let_def abs_le_iff)
qed

lemma round_half_even_mono:
  assumes "x \<le> y"
  shows "round_half_even x \<le> round_half_even y"
proof (cases "\<lfloor>x\<rfloor> = \<lfloor>y\<rfloor>")
  case True
  with assms show ?thesis
    by (auto simp add: round_half_even_def Let_def)
next
  case False
  with assms have "\<lfloor>x\<rfloor> + 1 \<le> \<lfloor>y\<rfloor>" using floor_mono [OF assms] by linarith
  with round_half_even_cases [of x] round_half_even_cases [of y] show ?thesis by linarith
qed

lemma round_half_even_ge: "of_int n \<le> x \<Longrightarrow> n \<le> round_half_even x"
  using round_half_even_mono [of "of_int n" x] by (simp add: round_half_even_of_int)

lemma round_half_even_le: "x \<le> of_int n \<Longrightarrow> round_half_even x \<le> n"
  using round_half_even_mono [of x "of_int n"] by (simp add: round_half_even_of_int)

lemma fl64_pos_eq:
  assumes "0 < x"
  shows "fl64 x = of_int (round_half_even (x / 2 powi (ilog2 x - 52))) * 2 powi (ilog2 x - 52)"
  using assms by (simp add: fl64_def Let_def)

lemma pow2_scale:
  "(2::rat) powi 52 * 2 powi (e - 52) = 2 powi e"
  "(2::rat) powi 53 * 2 powi (e - 52) = 2 powi (e + 1)"
proof -
  have "(2::rat) powi 52 * 2 powi (e - 52) = 2 powi (52 + (e - 52))"
    by (rule power_int_add [symmetric]) simp
  then show "(2::rat) powi 52 * 2 powi (e - 52) = 2 powi e" by (simp del: power_int_numeral)
  have "(2::rat) powi 53 * 2 powi (e - 52) = 2 powi (53 + (e - 52))"
    by (rule power_int_add [symmetric]) simp
  then show "(2::rat) powi 53 * 2 powi (e - 52) = 2 powi (e + 1)"
    by (simp add: add.commute del: power_int_numeral)
qed

lemma scaled_bounds:
  fixes x :: rat
  assumes "2 powi e \<le> x" "x < 2 powi (e + 1)"
  shows "2 powi 52 \<le> x / 2 powi (e - 52)" "x / 2 powi (e - 52) < 2 powi 53"
proof -
  have u: "(0::rat) < 2 powi (e - 52)" by simp
  show "2 powi 52 \<le> x / 2 powi (e - 52)"
    unfolding pos_le_divide_eq [OF u] pow2_scale by (rule assms)
  show "x / 2 powi (e - 52) < 2 powi 53"
    unfolding pos_divide_less_eq [OF u] pow2_scale by (rule assms)
qed

lemma fl64_bounds:
  assumes "2 powi e \<le> x" "x < 2 powi (e + 1)"
  shows "2 powi e \<le> fl64 x" "fl64 x \<le> 2 powi (e + 1)"
proof -
  have pos: "0 < x" using assms(1) order_less_le_trans [OF zero_less_power_int [of "2::rat" e]] by simp
  have e: "ilog2 x = e" using assms by (rule ilog2_unique)
  let ?u = "(2::rat) powi (e - 52)"
  let ?r = "round_half_even (x / ?u)"
  have u: "0 < ?u" by simp
  have f: "fl64 x = of_int ?r * ?u" using fl64_pos_eq [OF pos] e by simp
  have i: "(2::rat) powi 52 = of_int (2 ^ 52)" "(2::rat) powi 53 = of_int (2 ^ 53)" by simp_all
  from scaled_bounds [OF assms] have "of_int (2 ^ 52) \<le> x / ?u" "x / ?u \<le> of_int (2 ^ 53)"
    unfolding i by simp_all
  then have "2 ^ 52 \<le> ?r" "?r \<le> 2 ^ 53"
    by (simp_all only: round_half_even_ge round_half_even_le)
  then have r: "(2::rat) powi 52 \<le> of_int ?r" "of_int ?r \<le> (2::rat) powi 53"
    unfolding i by (simp_all only: of_int_le_iff)
  from r(1) have "2 powi 52 * ?u \<le> of_int ?r * ?u" using u by (simp only: mult_le_cancel_right_pos)
  then show "2 powi e \<le> fl64 x" unfolding pow2_scale f .
  from r(2) have "of_int ?r * ?u \<le> 2 powi 53 * ?u" using u by (simp only: mult_le_cancel_right_pos)
  then show "fl64 x \<le> 2 powi (e + 1)" unfolding pow2_scale f .
qed

lemma fl64_pos: "0 < x \<Longrightarrow> 0 < fl64 x"
  using fl64_bounds(1) [of "ilog2 x" x] ilog2_bounds [of x]
    order_less_le_trans [OF zero_less_power_int [of "2::rat" "ilog2 x"]]
  by simp

lemma fl64_zero: "fl64 0 = 0"
  by (simp add: fl64_def)

lemma fl64_mono_pos:
  assumes "0 < x" "x \<le> y"
  shows "fl64 x \<le> fl64 y"
proof -
  have y: "0 < y" using assms by simp
  let ?e = "ilog2 x" and ?f = "ilog2 y"
  note bx = ilog2_bounds [OF assms(1)] and bf = ilog2_bounds [OF y]
  have le: "?e \<le> ?f"
  proof (rule ccontr)
    assume "\<not> ?e \<le> ?f"
    then have "?f + 1 \<le> ?e" by simp
    then have "(2::rat) powi (?f + 1) \<le> 2 powi ?e" by (intro power_int_increasing) simp_all
    with bx bf assms(2) show False by simp
  qed
  show ?thesis
  proof (cases "?e = ?f")
    case True
    have "x / 2 powi (?e - 52) \<le> y / 2 powi (?e - 52)"
      using assms(2) by (simp add: divide_right_mono)
    then have "round_half_even (x / 2 powi (?e - 52)) \<le> round_half_even (y / 2 powi (?e - 52))"
      by (rule round_half_even_mono)
    then have "(of_int (round_half_even (x / 2 powi (?e - 52))) :: rat) * 2 powi (?e - 52)
        \<le> of_int (round_half_even (y / 2 powi (?e - 52))) * 2 powi (?e - 52)"
      by (intro mult_right_mono) simp_all
    then show ?thesis
      using fl64_pos_eq [OF assms(1)] fl64_pos_eq [OF y] True by simp
  next
    case False
    with le have "?e + 1 \<le> ?f" by simp
    then have "(2::rat) powi (?e + 1) \<le> 2 powi ?f" by (intro power_int_increasing) simp_all
    moreover have "fl64 x \<le> 2 powi (?e + 1)" using bx by (intro fl64_bounds(2)) simp_all
    moreover have "2 powi ?f \<le> fl64 y" using bf by (intro fl64_bounds(1) [of ?f y]) simp_all
    ultimately show ?thesis by linarith
  qed
qed

lemma fl64_mono:
  assumes "0 \<le> x" "x \<le> y"
  shows "fl64 x \<le> fl64 y"
proof (cases "x = 0")
  case True
  show ?thesis
  proof (cases "y = 0")
    case True
    with \<open>x = 0\<close> show ?thesis by simp
  next
    case False
    with assms have "0 < y" by simp
    from fl64_pos [OF this] \<open>x = 0\<close> show ?thesis by (simp add: fl64_zero)
  qed
next
  case False
  with assms have "0 < x" by simp
  then show ?thesis using assms(2) by (rule fl64_mono_pos)
qed

lemma fl64_nonneg: "0 \<le> x \<Longrightarrow> 0 \<le> fl64 x"
  using fl64_mono [of 0 x] by (simp add: fl64_zero)


lemma fl64_eval:
  assumes "2 powi e \<le> x" "x < 2 powi (e + 1)"
  shows "fl64 x = of_int (round_half_even (x / 2 powi (e - 52))) * 2 powi (e - 52)"
proof -
  have pos: "0 < x" using assms(1) order_less_le_trans [OF zero_less_power_int [of "2::rat" e]] by simp
  have "ilog2 x = e" using assms by (rule ilog2_unique)
  with fl64_pos_eq [OF pos] show ?thesis by simp
qed

lemma fl64_exact:
  assumes "0 < x" "x / 2 powi (ilog2 x - 52) = of_int k"
  shows "fl64 x = x"
proof -
  have "fl64 x = of_int k * 2 powi (ilog2 x - 52)"
    using fl64_pos_eq [OF assms(1)] assms(2) by (simp add: round_half_even_of_int)
  also have "\<dots> = x" using assms(2) by (simp add: field_simps)
  finally show ?thesis .
qed

lemma fl64_of_nat:
  assumes "n \<le> 2 ^ 53"
  shows "fl64 (of_nat n) = of_nat n"
proof (cases "n = 0")
  case True
  then show ?thesis by (simp add: fl64_zero)
next
  case False
  let ?x = "of_nat n :: rat"
  have pos: "0 < ?x" using False by simp
  let ?e = "ilog2 ?x"
  note b = ilog2_bounds [OF pos]
  have lo: "0 \<le> ?e"
  proof (rule ccontr)
    assume "\<not> 0 \<le> ?e"
    then have "?e + 1 \<le> 0" by simp
    then have "(2::rat) powi (?e + 1) \<le> 2 powi 0" by (intro power_int_increasing) simp_all
    with b have "?x < 1" by simp
    with False show False by simp
  qed
  have hi: "?e \<le> 53"
  proof (rule ccontr)
    assume "\<not> ?e \<le> 53"
    then have "54 \<le> ?e" by simp
    then have "(2::rat) powi 54 \<le> 2 powi ?e" by (intro power_int_increasing) simp_all
    with b have "(2::rat) ^ 54 \<le> ?x" by simp
    moreover have "?x \<le> of_nat (2 ^ 53)" using assms by (simp only: of_nat_le_iff)
    ultimately show False by simp
  qed
  show ?thesis
  proof (cases "?e = 53")
    case True
    with b have "(2::rat) ^ 53 \<le> ?x" by simp
    moreover have "?x \<le> of_nat (2 ^ 53)" using assms by (simp only: of_nat_le_iff)
    ultimately have x: "?x = 2 ^ 53" by simp
    have "?x / 2 powi (?e - 52) = of_int (2 ^ 52)"
      unfolding True unfolding x by simp
    with pos show ?thesis by (rule fl64_exact)
  next
    case False
    with hi lo have e: "0 \<le> 52 - ?e" by simp
    have "(2::rat) powi (?e - 52) = 1 / 2 powi (52 - ?e)"
      using power_int_minus_divide [of "2::rat" "52 - ?e"] by simp
    also have "(2::rat) powi (52 - ?e) = 2 ^ nat (52 - ?e)"
      using e by (simp add: power_int_def)
    finally have "?x / 2 powi (?e - 52) = of_int (int n * 2 ^ nat (52 - ?e))" by simp
    with pos show ?thesis by (rule fl64_exact)
  qed
qed

lemma fl64_err:
  assumes "0 \<le> x"
  shows "\<bar>fl64 x - x\<bar> \<le> x / 2 ^ 53"
proof (cases "x = 0")
  case True
  then show ?thesis by (simp add: fl64_zero)
next
  case False
  with assms have pos: "0 < x" by simp
  let ?e = "ilog2 x"
  let ?u = "(2::rat) powi (?e - 52)"
  let ?r = "round_half_even (x / ?u)"
  have u: "0 < ?u" by simp
  have "fl64 x - x = (of_int ?r - x / ?u) * ?u"
    using fl64_pos_eq [OF pos] by (simp add: field_simps)
  then have "\<bar>fl64 x - x\<bar> = \<bar>of_int ?r - x / ?u\<bar> * ?u"
    using u by (simp add: abs_mult)
  also have "\<dots> \<le> 1 / 2 * ?u"
    using round_half_even_err [of "x / ?u"] u by (intro mult_right_mono) simp_all
  also have "1 / 2 * ?u = 2 powi ?e / 2 ^ 53"
  proof -
    have "(2::rat) powi 53 * ?u = 2 powi (?e + 1)" by (rule pow2_scale)
    also have "(2::rat) powi (?e + 1) = 2 powi ?e * 2" by (simp add: power_int_add)
    finally show ?thesis by (simp add: field_simps)
  qed
  also have "\<dots> \<le> x / 2 ^ 53"
    using ilog2_bounds [OF pos] by (simp add: divide_right_mono)
  finally show ?thesis .
qed

section \<open>Progress of a session\<close>

lemma Progress_eq:
  "Progress s = (if sLength s = 0 then None
     else Some (progress_of (sLength s - int (length (sSamples s))) (sLength s)))"
  by (simp add: Progress_def progress_of_def Let_def)

lemma round_to_int: "0 \<le> x \<Longrightarrow> int_of_float64 (math_Round x) = \<lfloor>x + 1 / 2\<rfloor>"
  by (simp add: int_of_float64_def math_Round_def)

lemma float_percent_nonneg:
  assumes "0 \<le> a" "0 < t"
  shows "0 \<le> fl64 (fl64 (float64_of_int a / float64_of_int t) * 100)"
proof -
  have "0 \<le> float64_of_int a" using assms(1) by (simp add: float64_of_int_def fl64_nonneg)
  moreover have "0 < float64_of_int t" using assms(2) by (simp add: float64_of_int_def fl64_pos)
  ultimately have "0 \<le> fl64 (float64_of_int a / float64_of_int t)"
    by (intro fl64_nonneg) simp
  then show ?thesis by (intro fl64_nonneg) simp
qed

lemma progress_of_floor:
  assumes "0 \<le> a" "0 < t"
  shows "progress_of a t = \<lfloor>fl64 (fl64 (float64_of_int a / float64_of_int t) * 100) + 1 / 2\<rfloor>"
  unfolding progress_of_def using float_percent_nonneg [OF assms] by (rule round_to_int)

lemma progress_of_mono:
  assumes "0 \<le> a" "a \<le> b" "0 < t"
  shows "progress_of a t \<le> progress_of b t"
proof -
  have T: "0 < float64_of_int t" using assms(3) by (simp add: float64_of_int_def fl64_pos)
  have A: "0 \<le> float64_of_int a" using assms(1) by (simp add: float64_of_int_def fl64_nonneg)
  have "float64_of_int a \<le> float64_of_int b"
    unfolding float64_of_int_def using assms(1,2) by (intro fl64_mono) simp_all
  then have "float64_of_int a / float64_of_int t \<le> float64_of_int b / float64_of_int t"
    using T by (simp add: divide_right_mono)
  moreover have "0 \<le> float64_of_int a / float64_of_int t" using A T by simp
  ultimately have q: "fl64 (float64_of_int a / float64_of_int t) \<le>
      fl64 (float64_of_int b / float64_of_int t)"
    by (intro fl64_mono)
  have "0 \<le> fl64 (float64_of_int a / float64_of_int t)"
    using A T by (intro fl64_nonneg) simp
  with q have "fl64 (fl64 (float64_of_int a / float64_of_int t) * 100) \<le>
      fl64 (fl64 (float64_of_int b / float64_of_int t) * 100)"
    by (intro fl64_mono) simp_all
  then have "\<lfloor>fl64 (fl64 (float64_of_int a / float64_of_int t) * 100) + 1 / 2\<rfloor> \<le>
      \<lfloor>fl64 (fl64 (float64_of_int b / float64_of_int t) * 100) + 1 / 2\<rfloor>"
    by (intro floor_mono) simp
  then show ?thesis
    using assms by (simp add: progress_of_floor)
qed

lemma floor_half: "\<lfloor>0 + 1 / 2 :: rat\<rfloor> = 0" "\<lfloor>100 + 1 / 2 :: rat\<rfloor> = 100"
  by (rule floor_unique; simp)+

lemma progress_of_zero:
  assumes "0 < t"
  shows "progress_of 0 t = 0"
proof -
  have "fl64 (fl64 (float64_of_int 0 / float64_of_int t) * 100) = 0"
    by (simp add: float64_of_int_def fl64_zero)
  then show ?thesis using assms by (simp only: progress_of_floor floor_half)
qed

lemma fl64_1: "fl64 1 = 1"
  using fl64_of_nat [of 1] by simp

lemma fl64_100: "fl64 100 = 100"
  using fl64_of_nat [of 100] by simp

lemma progress_of_full:
  assumes "0 < t"
  shows "progress_of t t = 100"
proof -
  have "0 < float64_of_int t" using assms by (simp add: float64_of_int_def fl64_pos)
  then have "float64_of_int t / float64_of_int t = 1" by simp
  then have "fl64 (fl64 (float64_of_int t / float64_of_int t) * 100) = 100"
    by (simp add: fl64_1 fl64_100)
  then show ?thesis using assms by (simp only: progress_of_floor floor_half)
qed

lemma progress_of_range:
  assumes "0 \<le> a" "a \<le> t" "0 < t"
  shows "0 \<le> progress_of a t" "progress_of a t \<le> 100"
  using progress_of_mono [of 0 a t] progress_of_mono [of a t t] assms
  by (simp_all add: progress_of_zero progress_of_full)


lemma float64_of_int_exact:
  assumes "0 \<le> a" "a \<le> 2 ^ 53"
  shows "float64_of_int a = of_int a"
proof -
  have "nat a \<le> 2 ^ 53" using assms by (simp add: nat_le_iff)
  from fl64_of_nat [OF this] assms(1) show ?thesis by (simp add: float64_of_int_def)
qed

lemma progress_of_close:
  assumes "0 \<le> a" "a \<le> t" "0 < t" "t \<le> 2 ^ 53"
  shows "\<bar>of_int (progress_of a t) - 100 * of_int a / of_int t\<bar> \<le> (1 / 2 + 1 / 2 ^ 45 :: rat)"
proof -
  define q0 :: rat where "q0 = of_int a / of_int t"
  define q where "q = fl64 q0"
  define y where "y = fl64 (q * 100)"
  have A: "float64_of_int a = of_int a" using assms by (intro float64_of_int_exact) simp_all
  have T: "float64_of_int t = of_int t" using assms by (intro float64_of_int_exact) simp_all
  have q0: "0 \<le> q0" "q0 \<le> 1" using assms by (simp_all add: q0_def)
  have q: "0 \<le> q" "q \<le> 1"
    using fl64_nonneg [OF q0(1)] fl64_mono [OF q0] by (simp_all add: q_def fl64_1)
  have e1: "\<bar>q - q0\<bar> \<le> 1 / 2 ^ 53"
  proof -
    have "\<bar>q - q0\<bar> \<le> q0 / 2 ^ 53" unfolding q_def using q0(1) by (rule fl64_err)
    also have "\<dots> \<le> 1 / 2 ^ 53" using q0(2) by (simp add: divide_right_mono)
    finally show ?thesis .
  qed
  have y0: "0 \<le> q * 100" "q * 100 \<le> 100" using q by simp_all
  have e2: "\<bar>y - q * 100\<bar> \<le> 100 / 2 ^ 53"
  proof -
    have "\<bar>y - q * 100\<bar> \<le> q * 100 / 2 ^ 53" unfolding y_def using y0(1) by (rule fl64_err)
    also have "\<dots> \<le> 100 / 2 ^ 53" using y0(2) by (simp add: divide_right_mono)
    finally show ?thesis .
  qed
  have "y - 100 * q0 = (y - q * 100) + 100 * (q - q0)" by simp
  also have "\<bar>\<dots>\<bar> \<le> \<bar>y - q * 100\<bar> + \<bar>100 * (q - q0)\<bar>" by (rule abs_triangle_ineq)
  also have "\<bar>100 * (q - q0)\<bar> = 100 * \<bar>q - q0\<bar>"
    using abs_mult [of 100 "q - q0"] by (simp only: abs_numeral)
  finally have "\<bar>y - 100 * q0\<bar> \<le> \<bar>y - q * 100\<bar> + 100 * \<bar>q - q0\<bar>" .
  then have "\<bar>y - 100 * q0\<bar> \<le> \<bar>y - q * 100\<bar> + 100 * \<bar>q - q0\<bar>" .
  also have "\<dots> \<le> 100 / 2 ^ 53 + 100 * (1 / 2 ^ 53)"
    using e1 e2 by (intro add_mono mult_left_mono) simp_all
  also have "\<dots> \<le> 1 / 2 ^ 45" by simp
  finally have e3: "\<bar>y - 100 * q0\<bar> \<le> 1 / 2 ^ 45" .
  have p: "progress_of a t = \<lfloor>y + 1 / 2\<rfloor>"
    using assms by (simp add: progress_of_floor y_def q_def q0_def A T)
  have "of_int \<lfloor>y + 1 / 2\<rfloor> \<le> y + 1 / 2" "y + 1 / 2 < of_int \<lfloor>y + 1 / 2\<rfloor> + 1"
    by linarith+
  then have "\<bar>of_int (progress_of a t) - y\<bar> \<le> 1 / 2" unfolding p by linarith
  with e3 have "\<bar>of_int (progress_of a t) - 100 * q0\<bar> \<le> 1 / 2 + 1 / 2 ^ 45" by linarith
  then show ?thesis by (simp add: q0_def)
qed

lemma floor_at: "of_int k \<le> x \<Longrightarrow> x < of_int k + 1 \<Longrightarrow> \<lfloor>x\<rfloor> = k" for x :: rat
  by (rule floor_unique)

lemma round_half_even_below:
  assumes "of_int k \<le> x" "x < of_int k + 1 / 2"
  shows "round_half_even x = k"
proof -
  have "\<lfloor>x\<rfloor> = k" using assms by (intro floor_unique) simp_all
  with assms show ?thesis by (simp add: round_half_even_def Let_def)
qed

lemma fl64_at:
  assumes "2 powi e \<le> x" "x < 2 powi (e + 1)"
    and "round_half_even (x / 2 powi (e - 52)) = k"
  shows "fl64 x = of_int k * 2 powi (e - 52)"
  using fl64_eval [OF assms(1,2)] assms(3) by simp

lemma fl64_at_int:
  assumes "2 powi e \<le> x" "x < 2 powi (e + 1)" "x / 2 powi (e - 52) = of_int k"
  shows "fl64 x = x"
proof -
  have "0 < x" using assms(1) order_less_le_trans [OF zero_less_power_int [of "2::rat" e]] by simp
  moreover have "ilog2 x = e" using assms(1,2) by (rule ilog2_unique)
  ultimately show ?thesis using assms(3) by (intro fl64_exact [of x k]) simp_all
qed

lemma progress_of_1020_1024: "progress_of 1020 1024 = 100"
proof -
  have q: "fl64 (1020 / 1024) = 1020 / 1024"
    by (rule fl64_at_int [of "-1" _ "255 * 2 ^ 45"]) simp_all
  have y: "fl64 (1020 / 1024 * 100) = 1020 / 1024 * 100"
    by (rule fl64_at_int [of 6 _ "6375 * 2 ^ 40"]) simp_all
  have f: "\<lfloor>1020 / 1024 * 100 + 1 / 2 :: rat\<rfloor> = 100" by (rule floor_at) simp_all
  have "progress_of 1020 1024 = \<lfloor>fl64 (fl64 (1020 / 1024) * 100) + 1 / 2\<rfloor>"
    by (simp add: progress_of_floor float64_of_int_exact)
  then show ?thesis unfolding q y f .
qed

lemma progress_of_870_6000: "progress_of 870 6000 = 14"
proof -
  have "round_half_even (870 / 6000 / 2 powi (- 3 - 52)) = 5224175567749775"
    by (rule round_half_even_below) simp_all
  then have q: "fl64 (870 / 6000) = 5224175567749775 / 2 ^ 55"
    using fl64_at [of "-3" "870 / 6000" 5224175567749775] by simp
  have "round_half_even (5224175567749775 / 2 ^ 55 * 100 / 2 powi (3 - 52)) = 8162774324609023"
    by (rule round_half_even_below) simp_all
  then have y: "fl64 (5224175567749775 / 2 ^ 55 * 100) = 8162774324609023 / 2 ^ 49"
    using fl64_at [of 3 "5224175567749775 / 2 ^ 55 * 100" 8162774324609023] by simp
  have f: "\<lfloor>8162774324609023 / 2 ^ 49 + 1 / 2 :: rat\<rfloor> = 14" by (rule floor_at) simp_all
  have "progress_of 870 6000 = \<lfloor>fl64 (fl64 (870 / 6000) * 100) + 1 / 2\<rfloor>"
    by (simp add: progress_of_floor float64_of_int_exact)
  then show ?thesis unfolding q y f .
qed

lemma progress_of_30_240: "progress_of 30 240 = 13"
proof -
  have q: "fl64 (30 / 240) = 30 / 240"
    by (rule fl64_at_int [of "-3" _ "2 ^ 52"]) simp_all
  have y: "fl64 (30 / 240 * 100) = 30 / 240 * 100"
    by (rule fl64_at_int [of 3 _ "25 * 2 ^ 48"]) simp_all
  have f: "\<lfloor>30 / 240 * 100 + 1 / 2 :: rat\<rfloor> = 13" by (rule floor_at) simp_all
  have "progress_of 30 240 = \<lfloor>fl64 (fl64 (30 / 240) * 100) + 1 / 2\<rfloor>"
    by (simp add: progress_of_floor float64_of_int_exact)
  then show ?thesis unfolding q y f .
qed

lemma session_after:
  assumes "8 \<le> hBitDepth h" "hBitDepth h \<le> 28"
  shows "\<exists>ms s. calls n (fst (NewSendOp samples h)) = Return (ms, s) \<and>
    sSamples s = drop (n * capacity (uint (hBitDepth h))) samples \<and>
    sLength s = int (length samples)"
proof -
  note ok = NewSendOp_ok [OF assms, of samples]
  from calls_state [OF ok(1), of n] show ?thesis by (auto simp add: ok)
qed

lemma after_eqs:
  assumes "8 \<le> hBitDepth h" "hBitDepth h \<le> 28" "samples \<noteq> []"
  shows "remaining_after n samples h =
      Return (length samples - n * capacity (uint (hBitDepth h)))"
    and "done_after n samples h =
      Return (length samples - n * capacity (uint (hBitDepth h)) = 0)"
    and "progress_after n samples h =
      Return (Some (progress_of
        (int (length samples) - int (length samples - n * capacity (uint (hBitDepth h))))
        (int (length samples))))"
proof -
  from session_after [OF assms(1,2), of n samples] obtain ms s where
    s: "calls n (fst (NewSendOp samples h)) = Return (ms, s)"
    "sSamples s = drop (n * capacity (uint (hBitDepth h))) samples"
    "sLength s = int (length samples)"
    by blast
  show "remaining_after n samples h =
      Return (length samples - n * capacity (uint (hBitDepth h)))"
    using s by (simp add: remaining_after_def)
  show "done_after n samples h =
      Return (length samples - n * capacity (uint (hBitDepth h)) = 0)"
    using s by (simp add: done_after_def Done_def)
  show "progress_after n samples h =
      Return (Some (progress_of
        (int (length samples) - int (length samples - n * capacity (uint (hBitDepth h))))
        (int (length samples))))"
    using s assms(3) by (simp add: progress_after_def Progress_eq)
qed

text \<open>
  Claim C3, as stated: over a non-empty buffer, \<open>Progress\<close> equals
  \<open>round(100 * (total - remaining) / total)\<close>, is non-decreasing across successive
  \<open>NextMessage\<close> calls, starts at 0, and is 100 only when \<open>Done\<close> is true. With 1024
  samples at 8 bits, after 17 packets 4 samples remain and \<open>Progress\<close> is already 100:
  it rounds to the nearest percent. And the percentage is computed in \<open>float64\<close>: with
  6000 samples at 24 bits, after 29 packets the exact value is 14.5, which rounds (half
  away from zero, as \<open>math.Round\<close> does) to 15, while \<open>Progress\<close> is 14.
\<close>

theorem Progress_100_before_Done_counterexample:
  "progress_after 17 (replicate 1024 0)
     \<lparr> hChannel = 0, hNumber = 0, hBitDepth = 8, hPeriod = 22675, hLength = 0,
       hLoopStart = 0, hLoopEnd = 0, hLoopType = 0x7F \<rparr> = Return (Some 100) \<and>
   done_after 17 (replicate 1024 0)
     \<lparr> hChannel = 0, hNumber = 0, hBitDepth = 8, hPeriod = 22675, hLength = 0,
       hLoopStart = 0, hLoopEnd = 0, hLoopType = 0x7F \<rparr> = Return False \<and>
   progress_after 29 (replicate 6000 0)
     \<lparr> hChannel = 0, hNumber = 0, hBitDepth = 24, hPeriod = 22675, hLength = 0,
       hLoopStart = 0, hLoopEnd = 0, hLoopType = 0x7F \<rparr> = Return (Some 14) \<and>
   \<lfloor>100 * (6000 - 5130) / 6000 + 1 / 2 :: rat\<rfloor> = 15"
proof -
  have "\<lfloor>100 * (6000 - 5130) / 6000 + 1 / 2 :: rat\<rfloor> = 15"
    by (rule floor_at) simp_all
  then show ?thesis
    using
      after_eqs(2,3) [of "\<lparr> hChannel = 0, hNumber = 0, hBitDepth = 8, hPeriod = 22675, hLength = 0,
       hLoopStart = 0, hLoopEnd = 0, hLoopType = 0x7F \<rparr>" "replicate 1024 0" 17]
      after_eqs(3) [of "\<lparr> hChannel = 0, hNumber = 0, hBitDepth = 24, hPeriod = 22675, hLength = 0,
       hLoopStart = 0, hLoopEnd = 0, hLoopType = 0x7F \<rparr>" "replicate 6000 0" 29]
    by (simp add: capacity_def progress_of_1020_1024 progress_of_870_6000)
qed

text \<open>
  Claim C3, amended: for every transfer session over a non-empty sample buffer with a
  supported bit depth, after any number of \<open>NextMessage\<close> calls \<open>Progress\<close> is the
  \<open>float64\<close> evaluation of \<open>math.Round((done / total) * 100)\<close> with
  \<open>done = total - remaining\<close>, an integer from 0 to 100 within \<open>1/2 + 2^-45\<close> of
  \<open>100 * (total - remaining) / total\<close> (for buffers of at most \<open>2^53\<close> samples); it is
  non-decreasing across successive \<open>NextMessage\<close> calls, is 0 before the first call, and
  is 100 whenever \<open>Done\<close> is true.
\<close>

theorem Progress_session:
  assumes "samples \<noteq> []" "8 \<le> hBitDepth h" "hBitDepth h \<le> 28"
  shows "\<exists>p p' r.
    progress_after n samples h = Return (Some p) \<and>
    progress_after (Suc n) samples h = Return (Some p') \<and>
    remaining_after n samples h = Return r \<and>
    done_after n samples h = Return (r = 0) \<and>
    p = progress_of (int (length samples) - int r) (int (length samples)) \<and>
    p \<le> p' \<and> 0 \<le> p \<and> p \<le> 100 \<and>
    progress_after 0 samples h = Return (Some 0) \<and>
    (r = 0 \<longrightarrow> p = 100) \<and>
    (length samples \<le> 2 ^ 53 \<longrightarrow>
       \<bar>of_int p - 100 * (of_nat (length samples) - of_nat r) / of_nat (length samples)\<bar>
         \<le> (1 / 2 + 1 / 2 ^ 45 :: rat))"
proof -
  let ?c = "capacity (uint (hBitDepth h))"
  let ?t = "int (length samples)"
  let ?r = "length samples - n * ?c" and ?r' = "length samples - Suc n * ?c"
  let ?p = "progress_of (?t - int ?r) ?t" and ?p' = "progress_of (?t - int ?r') ?t"
  note eqs = after_eqs [OF assms(2,3,1)]
  have t: "0 < ?t" using assms(1) by simp
  have d: "0 \<le> ?t - int ?r" "?t - int ?r \<le> ?t - int ?r'" "?t - int ?r' \<le> ?t" by simp_all
  have mono: "?p \<le> ?p'" using d(1,2) t by (rule progress_of_mono)
  have range: "0 \<le> ?p" "?p \<le> 100"
    using progress_of_range [of "?t - int ?r" ?t] t by simp_all
  have zero: "progress_after 0 samples h = Return (Some 0)"
    using eqs(3) [of 0] t by (simp add: progress_of_zero)
  have full: "?r = 0 \<longrightarrow> ?p = 100"
    using progress_of_full [OF t] by simp
  have close: "length samples \<le> 2 ^ 53 \<longrightarrow>
       \<bar>of_int ?p - 100 * (of_nat (length samples) - of_nat ?r) / of_nat (length samples)\<bar>
         \<le> (1 / 2 + 1 / 2 ^ 45 :: rat)"
  proof
    assume "length samples \<le> 2 ^ 53"
    then have "?t \<le> 2 ^ 53" by (metis of_nat_le_iff of_nat_numeral of_nat_power)
    from progress_of_close [of "?t - int ?r" ?t, OF _ _ t this]
    have "\<bar>of_int ?p - 100 * of_int (?t - int ?r) / of_int ?t\<bar> \<le> (1 / 2 + 1 / 2 ^ 45 :: rat)"
      by simp
    moreover have "(of_int (?t - int ?r) :: rat) = of_nat (length samples) - of_nat ?r"
      by simp
    ultimately show "\<bar>of_int ?p - 100 * (of_nat (length samples) - of_nat ?r) /
        of_nat (length samples)\<bar> \<le> (1 / 2 + 1 / 2 ^ 45 :: rat)"
      by simp
  qed
  show ?thesis
    by (intro exI [of _ ?p] exI [of _ ?p'] exI [of _ ?r] conjI
        eqs(3) [of n] eqs(3) [of "Suc n"] eqs(1) eqs(2) refl mono range zero full close)
qed

theorem Progress_session_witness:
  "progress_after 0 (replicate 90 0)
     \<lparr> hChannel = 0, hNumber = 0, hBitDepth = 8, hPeriod = 22675, hLength = 0,
       hLoopStart = 0, hLoopEnd = 0, hLoopType = 0x7F \<rparr> = Return (Some 0) \<and>
   progress_after 2 (replicate 90 0)
     \<lparr> hChannel = 0, hNumber = 0, hBitDepth = 8, hPeriod = 22675, hLength = 0,
       hLoopStart = 0, hLoopEnd = 0, hLoopType = 0x7F \<rparr> = Return (Some 100) \<and>
   done_after 2 (replicate 90 0)
     \<lparr> hChannel = 0, hNumber = 0, hBitDepth = 8, hPeriod = 22675, hLength = 0,
       hLoopStart = 0, hLoopEnd = 0, hLoopType = 0x7F \<rparr> = Return True"
proof -
  from Progress_session [of "replicate 90 0" "\<lparr> hChannel = 0, hNumber = 0, hBitDepth = 8, hPeriod = 22675, hLength = 0,
       hLoopStart = 0, hLoopEnd = 0, hLoopType = 0x7F \<rparr>" 2]
  obtain p p' r where
    "progress_after 2 (replicate 90 0) \<lparr> hChannel = 0, hNumber = 0, hBitDepth = 8, hPeriod = 22675, hLength = 0,
       hLoopStart = 0, hLoopEnd = 0, hLoopType = 0x7F \<rparr> = Return (Some p)"
    "remaining_after 2 (replicate 90 0) \<lparr> hChannel = 0, hNumber = 0, hBitDepth = 8, hPeriod = 22675, hLength = 0,
       hLoopStart = 0, hLoopEnd = 0, hLoopType = 0x7F \<rparr> = Return r"
    "done_after 2 (replicate 90 0) \<lparr> hChannel = 0, hNumber = 0, hBitDepth = 8, hPeriod = 22675, hLength = 0,
       hLoopStart = 0, hLoopEnd = 0, hLoopType = 0x7F \<rparr> = Return (r = 0)"
    "progress_after 0 (replicate 90 0) \<lparr> hChannel = 0, hNumber = 0, hBitDepth = 8, hPeriod = 22675, hLength = 0,
       hLoopStart = 0, hLoopEnd = 0, hLoopType = 0x7F \<rparr> = Return (Some 0)"
    "r = 0 \<longrightarrow> p = 100"
    by auto
  moreover have "remaining_after 2 (replicate 90 0) \<lparr> hChannel = 0, hNumber = 0, hBitDepth = 8, hPeriod = 22675, hLength = 0,
       hLoopStart = 0, hLoopEnd = 0, hLoopType = 0x7F \<rparr> = Return 0"
    using after_eqs(1) [of "\<lparr> hChannel = 0, hNumber = 0, hBitDepth = 8, hPeriod = 22675, hLength = 0,
       hLoopStart = 0, hLoopEnd = 0, hLoopType = 0x7F \<rparr>" "replicate 90 0" 2] by (simp add: capacity_def)
  ultimately show ?thesis by simp
qed

section \<open>The data loop\<close>

lemma Decode_ControlPacket_type:
  assumes "Decode raw = Return (Inr (MControlPacket c))"
  shows "cType c = Ack \<or> cType c = Nak \<or> cType c = Cancel \<or> cType c = Wait"
  using assms
  by (auto simp add: Decode_dispatch decodeDumpHeader_def decodeDataPacket_def
      decodeDumpRequest_def decodeControlPacket_def dumpHeaderSize_def dataPacketSize_def
      dumpRequestSize_def controlPacketSize_def index_def subslice_def Let_def
      Ack_def Nak_def Cancel_def Wait_def split: if_splits)

lemma receive_no_release:
  assumes "list_all (\<lambda>a. \<not> releases channel a) ins"
  shows "receive ins = Return None \<or>
    (\<exists>msg rest. receive ins = Return (Some (msg, rest)) \<and> holds_waiting channel msg \<and>
       list_all (\<lambda>a. \<not> releases channel a) rest)"
  using assms
proof (induction ins)
  case Nil
  then show ?case by simp
next
  case (Cons a ins)
  show ?case
  proof (cases a)
    case Expired
    with Cons.prems show ?thesis by (simp add: holds_waiting_def)
  next
    case (Frame raw)
    obtain r where r: "Decode raw = Return r" using Decode_returns [of raw] by blast
    show ?thesis
    proof (cases r)
      case (Inl err)
      with Cons Frame r show ?thesis by simp
    next
      case (Inr msg)
      show ?thesis
      proof (cases msg)
        case (MControlPacket c)
        with Inr r Decode_ControlPacket_type [of raw c] Cons.prems Frame show ?thesis
          by (auto simp add: holds_waiting_def)
      qed (use Inr r Cons.prems Frame in \<open>simp_all add: holds_waiting_def\<close>)
    qed
  qed
qed

lemma report_fields:
  "lWaiting (report st) = lWaiting st" "lConn (report st) = lConn st"
  "lTransfer (report st) = lTransfer st"
  by (simp_all add: report_def split: option.splits)

lemma respond_holds_waiting:
  assumes "lWaiting st" "holds_waiting channel msg"
  shows "\<exists>st'. respond channel st msg = (None, st') \<and> lWaiting st' \<and> lConn st' = lConn st \<and>
    lTransfer st' = lTransfer st"
  using assms
  by (auto simp add: respond_def holds_waiting_def report_fields Let_def Ack_def Nak_def Cancel_def
      Wait_def split: option.splits Message.splits)

lemma respond_Wait:
  assumes "cChannel c = word_of_int channel" "cType c = Wait"
  shows "\<exists>st'. respond channel st (Some (MControlPacket c)) = (None, st') \<and> lWaiting st' \<and>
    lConn st' = lConn st \<and> lTransfer st' = lTransfer st"
  using assms
  by (simp add: respond_def report_fields Let_def Ack_def Nak_def Cancel_def Wait_def)

lemma waiting_loop:
  assumes "lWaiting st" "list_all (\<lambda>a. \<not> releases channel a) (incoming (lConn st))"
  shows "\<exists>e st'. transferData_loop channel st = Return (e, st') \<and> (e = Completed \<or> e = Starved) \<and>
    lWaiting st' \<and> written (lConn st') = written (lConn st) \<and> lTransfer st' = lTransfer st"
  using assms
proof (induction channel st rule: transferData_loop.induct)
  case (1 channel st)
  show ?case
  proof (cases "Done (lTransfer st)")
    case True
    with "1.prems" show ?thesis by simp
  next
    case False
    from "1.prems"(1) have sn: "send_next st = Return st" by (simp add: send_next_def)
    from receive_no_release [OF "1.prems"(2)] show ?thesis
    proof
      assume "receive (incoming (lConn st)) = Return None"
      with sn False "1.prems" show ?thesis by (simp add: iteration_def)
    next
      assume "\<exists>msg rest. receive (incoming (lConn st)) = Return (Some (msg, rest)) \<and>
        holds_waiting channel msg \<and> list_all (\<lambda>a. \<not> releases channel a) rest"
      then obtain msg rest where r: "receive (incoming (lConn st)) = Return (Some (msg, rest))"
        and h: "holds_waiting channel msg" and rest: "list_all (\<lambda>a. \<not> releases channel a) rest"
        by blast
      let ?st = "st \<lparr> lConn := (lConn st) \<lparr> incoming := rest \<rparr> \<rparr>"
      from "1.prems"(1) have "lWaiting ?st" by simp
      from respond_holds_waiting [OF this h] obtain st2 where
        2: "respond channel ?st msg = (None, st2)" "lWaiting st2" "lConn st2 = lConn ?st"
        "lTransfer st2 = lTransfer ?st"
        by blast
      from sn r 2(1) have it: "iteration channel st = Return (None, st2)"
        by (simp add: iteration_def)
      from 2(3) rest have "list_all (\<lambda>a. \<not> releases channel a) (incoming (lConn st2))" by simp
      from "1.IH" [OF False it refl refl 2(2) this] obtain e st' where
        "transferData_loop channel st2 = Return (e, st')" "e = Completed \<or> e = Starved"
        "lWaiting st'" "written (lConn st') = written (lConn st2)" "lTransfer st' = lTransfer st2"
        by blast
      with False it 2 show ?thesis by simp
    qed
  qed
qed

text \<open>
  Claim C9: in the data loop, once the response to a \<open>Wait\<close> control packet on the
  matching channel has set the waiting state, the loop writes no further data packet, in
  any number of subsequent iterations, until an \<open>Ack\<close>, \<open>Nak\<close> or \<open>Cancel\<close> control
  packet on the matching channel arrives: over arrivals that hold no such packet
  (timeouts, frames that do not decode, messages of other kinds or on other channels,
  further \<open>Wait\<close> packets) the run of the loop leaves the session and the written
  messages unchanged and is still waiting when the arrivals run out (or the loop has
  ended because the session was already done).
\<close>

theorem Wait_suspends_sending:
  assumes "cChannel c = word_of_int channel" "cType c = Wait"
    and "list_all (\<lambda>a. \<not> releases channel a) (incoming (lConn st))"
  shows "\<exists>st1. respond channel st (Some (MControlPacket c)) = (None, st1) \<and> lWaiting st1 \<and>
    (\<exists>e st'. transferData_loop channel st1 = Return (e, st') \<and> (e = Completed \<or> e = Starved) \<and>
       lWaiting st' \<and> written (lConn st') = written (lConn st) \<and> lTransfer st' = lTransfer st)"
proof -
  from respond_Wait [OF assms(1,2), of st] obtain st1 where
    1: "respond channel st (Some (MControlPacket c)) = (None, st1)" "lWaiting st1"
    "lConn st1 = lConn st" "lTransfer st1 = lTransfer st"
    by blast
  from assms(3) 1(3) have "list_all (\<lambda>a. \<not> releases channel a) (incoming (lConn st1))" by simp
  from waiting_loop [OF 1(2) this] 1 show ?thesis by auto
qed

theorem Wait_suspends_sending_witness:
  "\<exists>st1. respond 0
       \<lparr> lTransfer = fst (NewSendOp [1, 2, 3] \<lparr> hChannel = 0, hNumber = 0, hBitDepth = 8,
           hPeriod = 0, hLength = 0, hLoopStart = 0, hLoopEnd = 0, hLoopType = 0 \<rparr>),
         lWaiting = False, lProgress = 0,
         lConn = \<lparr> incoming = [Expired, Frame [0xF0, 0x7E, 0x05, 0x7F, 0x00, 0xF7], Frame [0x01],
             Frame [0xF0, 0x7E, 0x00, 0x7C, 0x00, 0xF7], Expired], written = [] \<rparr> \<rparr>
       (Some (MControlPacket \<lparr> cType = Wait, cChannel = 0, cPacketNumber = 0 \<rparr>)) = (None, st1) \<and>
     lWaiting st1 \<and>
     (\<exists>e st'. transferData_loop 0 st1 = Return (e, st') \<and> (e = Completed \<or> e = Starved) \<and>
        lWaiting st' \<and> written (lConn st') = [] \<and>
        lTransfer st' = fst (NewSendOp [1, 2, 3] \<lparr> hChannel = 0, hNumber = 0, hBitDepth = 8,
           hPeriod = 0, hLength = 0, hLoopStart = 0, hLoopEnd = 0, hLoopType = 0 \<rparr>))"
proof -
  have "list_all (\<lambda>a. \<not> releases 0 a)
      [Expired, Frame [0xF0, 0x7E, 0x05, 0x7F, 0x00, 0xF7], Frame [0x01],
       Frame [0xF0, 0x7E, 0x00, 0x7C, 0x00, 0xF7], Expired]"
    by (simp add: Decode_dispatch HasPrefix_def prefix_def decodeControlPacket_def
        controlPacketSize_def index_def Ack_def Nak_def Cancel_def)
  from Wait_suspends_sending [of "\<lparr> cType = Wait, cChannel = 0, cPacketNumber = 0 \<rparr>" 0
      "\<lparr> lTransfer = fst (NewSendOp [1, 2, 3] \<lparr> hChannel = 0, hNumber = 0, hBitDepth = 8,
           hPeriod = 0, hLength = 0, hLoopStart = 0, hLoopEnd = 0, hLoopType = 0 \<rparr>),
         lWaiting = False, lProgress = 0,
         lConn = \<lparr> incoming = [Expired, Frame [0xF0, 0x7E, 0x05, 0x7F, 0x00, 0xF7], Frame [0x01],
             Frame [0xF0, 0x7E, 0x00, 0x7C, 0x00, 0xF7], Expired], written = [] \<rparr> \<rparr>"]
    this
  show ?thesis by simp
qed

end
